theory Spec2Isabelle
  imports Complex_Main
begin

section \<open>JavaScript strings\<close>

text \<open>
  A JavaScript string is modelled as a list of code units (\<open>string\<close>); the code units of
  the model are 8 bits wide. Case conversion maps the ASCII letters and keeps every other
  code unit, which is what JavaScript does on ASCII text; on a code unit from \<open>0x80\<close> on
  JavaScript also converts the letters outside ASCII. The patterns and the catalog of the
  server are ASCII and, under the flag \<open>i\<close>, a code unit outside ASCII matches no ASCII
  letter; \<open>tokenizeWords\<close> strips every code unit outside \<open>a-z\<close> and the apostrophe after
  the conversion. So the conversion of a letter outside ASCII only shows in
  \<open>capitalizeFirst\<close> and \<open>lowerFirst\<close>, for a text that begins with such a letter.
  Offsets are JavaScript numbers holding integers and are modelled as \<open>int\<close>, so that the
  negative values the client arithmetic can produce keep the meaning
  \<open>String.prototype.slice\<close> gives them.
\<close>

definition is_space :: "char \<Rightarrow> bool" where
  \<comment> \<open>the white space of \<open>String.prototype.trim\<close> and of the class \<open>\s\<close>, in the 8-bit range\<close>
  "is_space c = (c \<in> set [CHR 0x09, CHR 0x0A, CHR 0x0B, CHR 0x0C, CHR 0x0D, CHR 0x20, CHR 0xA0])"

definition upper_letters :: string where
  "upper_letters = ''ABCDEFGHIJKLMNOPQRSTUVWXYZ''"

definition lower_letters :: string where
  "lower_letters = ''abcdefghijklmnopqrstuvwxyz''"

definition word_chars :: string where
  "word_chars = ''ABCDEFGHIJKLMNOPQRSTUVWXYZabcdefghijklmnopqrstuvwxyz0123456789_''"

definition is_word :: "char \<Rightarrow> bool" where
  \<comment> \<open>the class \<open>\w\<close>, which decides the assertion \<open>\b\<close>\<close>
  "is_word c = (c \<in> set word_chars)"

definition toLowerCase_char :: "char \<Rightarrow> char" where
  \<comment> \<open>case conversion acts on the ASCII letters; every other code unit is kept\<close>
  "toLowerCase_char c =
     (case map_of (zip upper_letters lower_letters) c of Some d \<Rightarrow> d | None \<Rightarrow> c)"

definition toUpperCase_char :: "char \<Rightarrow> char" where
  "toUpperCase_char c =
     (case map_of (zip lower_letters upper_letters) c of Some d \<Rightarrow> d | None \<Rightarrow> c)"

definition toLowerCase :: "string \<Rightarrow> string" where
  "toLowerCase s = map toLowerCase_char s"

definition trim :: "string \<Rightarrow> string" where
  "trim s = rev (dropWhile is_space (rev (dropWhile is_space s)))"

definition slice :: "string \<Rightarrow> int \<Rightarrow> int \<Rightarrow> string" where
  \<comment> \<open>\<open>s.slice(a, b)\<close>: a negative index counts from the end, both are clamped to the string\<close>
  "slice s a b =
     (let n = int (length s);
          lo = (if a < 0 then max (n + a) 0 else min a n);
          hi = (if b < 0 then max (n + b) 0 else min b n)
      in take (nat (hi - lo)) (drop (nat lo) s))"

definition slice_from :: "string \<Rightarrow> int \<Rightarrow> string" where
  \<comment> \<open>\<open>s.slice(a)\<close>\<close>
  "slice_from s a = slice s a (int (length s))"

fun starts_with :: "string \<Rightarrow> string \<Rightarrow> bool" where
  \<comment> \<open>\<open>starts_with pat s\<close>: the string \<open>s\<close> begins with \<open>pat\<close>\<close>
  "starts_with [] s = True"
| "starts_with (p # ps) [] = False"
| "starts_with (p # ps) (c # cs) = (if p = c then starts_with ps cs else False)"

fun index_from :: "string \<Rightarrow> string \<Rightarrow> nat \<Rightarrow> int" where
  "index_from pat [] i = (if pat = [] then int i else - 1)"
| "index_from pat (c # cs) i =
     (if starts_with pat (c # cs) then int i else index_from pat cs (Suc i))"

definition indexOf :: "string \<Rightarrow> string \<Rightarrow> int" where
  \<comment> \<open>\<open>s.indexOf(pat)\<close>: the first offset at which \<open>pat\<close> occurs, or \<open>-1\<close>\<close>
  "indexOf s pat = index_from pat s 0"

definition includes_str :: "string \<Rightarrow> string \<Rightarrow> bool" where
  "includes_str s pat = (0 \<le> indexOf s pat)"

fun join :: "string \<Rightarrow> string list \<Rightarrow> string" where
  "join sep [] = []"
| "join sep [x] = x"
| "join sep (x # y # ys) = x @ sep @ join sep (y # ys)"

definition capitalizeFirst :: "string \<Rightarrow> string" where
  "capitalizeFirst s = (case s of [] \<Rightarrow> [] | c # cs \<Rightarrow> toUpperCase_char c # cs)"

definition lowerFirst :: "string \<Rightarrow> string" where
  "lowerFirst s = (case s of [] \<Rightarrow> [] | c # cs \<Rightarrow> toLowerCase_char c # cs)"

section \<open>Segmenter (server/index.js)\<close>

text \<open>
  \<open>nlp(text).terms().out('array')\<close> belongs to the library \<open>compromise\<close>, which is not part
  of the repository. Every definition that tokenizes takes it as the parameter \<open>terms\<close>.
\<close>

type_synonym tokenizer = "string \<Rightarrow> string list"

definition tokenizeWords :: "tokenizer \<Rightarrow> string \<Rightarrow> string list" where
  "tokenizeWords terms s =
     filter (\<lambda>w. w \<noteq> [])
       (map (\<lambda>term. filter (\<lambda>c. c \<in> set (lower_letters @ [CHR 0x27])) (toLowerCase term))
            (terms s))"

text \<open>
  A sentence record and a suggestion both carry a span. The fields \<open>end'\<close> and \<open>ntext\<close> are
  the fields \<open>end\<close> and \<open>text\<close> of the source.
\<close>

record span =
  start :: int
  end' :: int

record sentence = span +
  index :: nat
  raw :: string
  ntext :: string
  wordCount :: nat
  opener :: string
  firstWord :: string

definition is_terminal :: "char \<Rightarrow> bool" where
  "is_terminal c = (c \<in> set ''.!?'')"

definition is_stop :: "char \<Rightarrow> bool" where
  "is_stop c = (is_terminal c \<or> c = CHR 0x0A)"

text \<open>
  The successive matches of \<open>/[^.!?\n]+[.!?]?/g\<close>, each with its \<open>match.index\<close>: the
  first argument is the offset of the text that is left (\<open>regex.lastIndex\<close>).
\<close>

function sentence_matches :: "nat \<Rightarrow> string \<Rightarrow> (nat \<times> string) list" where
  "sentence_matches off [] = []"
| "sentence_matches off (c # cs) =
     (if is_stop c then sentence_matches (Suc off) cs
      else
        let run = takeWhile (\<lambda>x. \<not> is_stop x) (c # cs);
            rest = dropWhile (\<lambda>x. \<not> is_stop x) (c # cs);
            m = (case rest of [] \<Rightarrow> run | d # ds \<Rightarrow> if is_terminal d then run @ [d] else run)
        in (off, m) # sentence_matches (off + length m) (drop (length m) (c # cs)))"
  by pat_completeness auto
termination
  by (relation "measure (\<lambda>(off, s). length s)") (auto split: list.splits)

definition make_sentence :: "tokenizer \<Rightarrow> nat \<Rightarrow> nat \<times> string \<Rightarrow> sentence" where
  "make_sentence terms i m =
     (let normalized = trim (snd m);
          words = tokenizeWords terms normalized
      in \<lparr> start = int (fst m), end' = int (fst m) + int (length (snd m)),
           index = i, raw = snd m, ntext = normalized,
           wordCount = length words, opener = join '' '' (take 2 words),
           firstWord = (case words of [] \<Rightarrow> [] | w # ws \<Rightarrow> w) \<rparr>)"

fun collect_sentences :: "tokenizer \<Rightarrow> (nat \<times> string) list \<Rightarrow> sentence list \<Rightarrow> sentence list" where
  "collect_sentences terms [] sentences = sentences"
| "collect_sentences terms (m # ms) sentences =
     (if trim (snd m) = [] then collect_sentences terms ms sentences
      else collect_sentences terms ms (sentences @ [make_sentence terms (length sentences) m]))"

definition splitSentences :: "tokenizer \<Rightarrow> string \<Rightarrow> sentence list" where
  "splitSentences terms s = collect_sentences terms (sentence_matches 0 s) []"

section \<open>Statistics and constants (server/index.js)\<close>

text \<open>
  JavaScript numbers are modelled as real numbers. The one computation of the scorer that
  can leave the finite numbers (a division by the number of openers) is modelled with an
  explicit \<open>NaN\<close>.
\<close>

datatype number = Num real | NaN

definition COMMON_WORDS :: "string list" where
  "COMMON_WORDS =
    [''the'', ''a'', ''an'', ''and'', ''or'', ''but'', ''if'', ''then'', ''that'', ''this'', ''it'', ''is'',
     ''are'', ''was'', ''were'', ''be'', ''been'', ''being'', ''to'', ''of'', ''in'', ''on'', ''at'', ''for'',
     ''with'', ''by'', ''from'', ''as'', ''about'', ''into'', ''through'', ''after'', ''before'', ''between'',
     ''because'', ''while'', ''over'', ''under'', ''during'', ''within'', ''without'', ''i'', ''you'', ''we'',
     ''they'', ''he'', ''she'', ''my'', ''your'', ''our'', ''their'', ''its'', ''there'', ''here'', ''can'',
     ''could'', ''would'', ''should'', ''may'', ''might'', ''do'', ''does'', ''did'', ''have'', ''has'',
     ''had'', ''more'', ''most'', ''very'', ''really'']"

definition PREDICTABLE_PHRASES :: "(string \<times> string) list" where
  "PREDICTABLE_PHRASES =
    [(''in conclusion'', ''to wrap up''),
     (''it is important to note that'', ''worth noting:''),
     (''the purpose of this'', ''this is meant to''),
     (''there are several'', ''a few''),
     (''this demonstrates that'', ''this shows''),
     (''in addition'', ''plus''),
     (''furthermore'', ''also''),
     (''moreover'', ''on top of that''),
     (''overall'', ''all in all''),
     (''it should be noted that'', ''note that'')]"

definition HEDGE_WORDS :: "string list" where
  \<comment> \<open>the alternatives of \<open>HEDGE_REGEX\<close>, in the order the pattern tries them\<close>
  "HEDGE_WORDS =
    [''may'', ''might'', ''could'', ''perhaps'', ''possibly'', ''generally'', ''typically'', ''often'',
     ''somewhat'', ''largely'', ''arguably'', ''relatively'']"

definition clamp :: "real \<Rightarrow> real" where
  "clamp v = max 0 (min 100 v)"

definition average :: "real list \<Rightarrow> real" where
  "average arr = (if arr = [] then 0 else sum_list arr / real (length arr))"

definition stdDev :: "real list \<Rightarrow> real" where
  "stdDev arr =
     (if length arr \<le> 1 then 0
      else sqrt (sum_list (map (\<lambda>v. (v - average arr)\<^sup>2) arr) / real (length arr)))"

fun bump :: "'a \<Rightarrow> ('a \<times> nat) list \<Rightarrow> ('a \<times> nat) list" where
  "bump k [] = [(k, 1)]"
| "bump k ((k', n) # m) = (if k = k' then (k', n + 1) # m else (k', n) # bump k m)"

definition count_all :: "'a list \<Rightarrow> ('a \<times> nat) list" where
  \<comment> \<open>a \<open>Map\<close> from keys to counts, in insertion order\<close>
  "count_all ks = foldl (\<lambda>m k. bump k m) [] ks"

definition maximum :: "nat list \<Rightarrow> nat" where
  \<comment> \<open>\<open>Math.max(...xs)\<close> of a non-empty list of counts\<close>
  "maximum xs = foldr max xs 0"

section \<open>Regular expressions of the server\<close>

definition head :: "string \<Rightarrow> char option" where
  "head s = (case s of [] \<Rightarrow> None | c # cs \<Rightarrow> Some c)"

definition word_opt :: "char option \<Rightarrow> bool" where
  "word_opt a = (case a of None \<Rightarrow> False | Some c \<Rightarrow> is_word c)"

definition boundary :: "char option \<Rightarrow> string \<Rightarrow> bool" where
  \<comment> \<open>the assertion \<open>\b\<close> between the code unit \<open>prev\<close> (if any) and the rest \<open>s\<close> of the text\<close>
  "boundary prev s = (word_opt prev \<noteq> word_opt (head s))"

fun ci_prefix :: "string \<Rightarrow> string \<Rightarrow> bool" where
  \<comment> \<open>the literal \<open>pat\<close> matches at the head of \<open>s\<close> under the flag \<open>i\<close>\<close>
  "ci_prefix [] s = True"
| "ci_prefix (p # ps) [] = False"
| "ci_prefix (p # ps) (c # cs) =
     (if toUpperCase_char c = toUpperCase_char p then ci_prefix ps cs else False)"

definition literal_here :: "string \<Rightarrow> char option \<Rightarrow> string \<Rightarrow> bool" where
  \<comment> \<open>\<open>\bpat\b\<close> with the flag \<open>i\<close> matches at the head of \<open>s\<close>, for a literal pattern;
      \<open>prev\<close> is the code unit before \<open>s\<close> in the text\<close>
  "literal_here pat prev s =
     (if pat = [] then False
      else if ci_prefix pat s
      then (if boundary prev s
            then boundary (Some (last (take (length pat) s))) (drop (length pat) s)
            else False)
      else False)"

text \<open>
  The successive matches \<open>(match.index, match[0])\<close> of the global pattern \<open>\bpat\b\<close> in
  the text that is left, which starts at offset \<open>off\<close> after the code unit \<open>prev\<close>. The
  patterns of the server are not empty; for the empty pattern the model reports no match.
\<close>

function literal_matches :: "string \<Rightarrow> char option \<Rightarrow> nat \<Rightarrow> string \<Rightarrow> (nat \<times> string) list" where
  "literal_matches pat prev off [] = []"
| "literal_matches pat prev off (c # cs) =
     (if literal_here pat prev (c # cs)
      then (off, take (length pat) (c # cs)) #
           literal_matches pat (Some (last (take (length pat) (c # cs)))) (off + length pat)
             (drop (length pat) (c # cs))
      else literal_matches pat (Some c) (Suc off) cs)"
  by pat_completeness auto
termination
  by (relation "measure (\<lambda>(pat, prev, off, s). length s)")
     (auto simp: literal_here_def split: if_splits)

definition escape_class :: string where
  "escape_class = ''.*+?^${}()|['' @ [CHR 0x5C]"

text \<open>
  \<open>phrase.replace(/[.*+?^${}()|[\\]\\]/g, '\\$&')\<close>: the pattern is a character of the
  class, then a backslash, then a closing bracket; each match gets a backslash in front.
\<close>

fun escapePhrase :: "string \<Rightarrow> string" where
  "escapePhrase (a # b # c # rest) =
     (if a \<in> set escape_class \<and> b = CHR 0x5C \<and> c = CHR '']''
      then CHR 0x5C # a # b # c # escapePhrase rest
      else a # escapePhrase (b # c # rest))"
| "escapePhrase s = s"

definition hedge_here :: "char option \<Rightarrow> string \<Rightarrow> string option" where
  \<comment> \<open>the match of \<open>HEDGE_REGEX\<close> at the head of \<open>s\<close>: the first alternative that fits\<close>
  "hedge_here prev s =
     (case find (\<lambda>w. literal_here w prev s) HEDGE_WORDS of
        None \<Rightarrow> None
      | Some w \<Rightarrow> Some (take (length w) s))"

function hedge_matches :: "char option \<Rightarrow> nat \<Rightarrow> string \<Rightarrow> (nat \<times> string) list" where
  "hedge_matches prev off [] = []"
| "hedge_matches prev off (c # cs) =
     (case hedge_here prev (c # cs) of
        None \<Rightarrow> hedge_matches (Some c) (Suc off) cs
      | Some h \<Rightarrow>
          (off, h) # hedge_matches (Some (last h)) (off + length h) (drop (length h) (c # cs)))"
  by pat_completeness auto
termination
proof (relation "measure (\<lambda>(prev, off, s). length s)", goal_cases)
  case 1
  show ?case by simp
next
  case (2 prev off c cs)
  then show ?case by simp
next
  case (3 prev off c cs h)
  then obtain w where f: "find (\<lambda>w. literal_here w prev (c # cs)) HEDGE_WORDS = Some w"
    and h: "h = take (length w) (c # cs)"
    by (auto simp: hedge_here_def split: option.splits)
  from f have "literal_here w prev (c # cs)"
    by (auto simp: find_Some_iff)
  then have "w \<noteq> []"
    by (auto simp: literal_here_def split: if_splits)
  with h have "0 < length h" by (cases w) auto
  then show ?case by simp
qed

definition starts_with_word :: "string \<Rightarrow> string \<Rightarrow> bool" where
  \<comment> \<open>\<open>/^w\b/i.test(s)\<close> for a word \<open>w\<close> of letters\<close>
  "starts_with_word w s =
     (if ci_prefix w s
      then boundary (Some (last (take (length w) s))) (drop (length w) s)
      else False)"

function collapse_spaces :: "string \<Rightarrow> string" where
  "collapse_spaces [] = []"
| "collapse_spaces (c # cs) =
     (if is_space c \<and> cs \<noteq> [] \<and> is_space (hd cs)
      then CHR '' '' # collapse_spaces (dropWhile is_space cs)
      else c # collapse_spaces cs)"
  by pat_completeness auto
termination
  by (relation "measure length") (auto simp: length_dropWhile_le less_Suc_eq_le)

function split_spaces :: "string \<Rightarrow> string list" where
  "split_spaces s =
     (let w = takeWhile (\<lambda>c. \<not> is_space c) s;
          r = dropWhile (\<lambda>c. \<not> is_space c) s
      in if r = [] then [w] else w # split_spaces (dropWhile is_space r))"
  by pat_completeness auto
termination
proof (relation "measure length", goal_cases)
  case 1
  show ?case by simp
next
  case (2 s w r)
  then have "r \<noteq> []" by simp
  then have "is_space (hd r)"
    using 2 hd_dropWhile [of "\<lambda>c. \<not> is_space c" s] by simp
  with \<open>r \<noteq> []\<close> obtain c cs where r: "r = c # cs" and c: "is_space c"
    by (cases r) auto
  have "length (dropWhile is_space r) \<le> length cs"
    using r c by (simp add: length_dropWhile_le)
  moreover have "length r \<le> length s"
    using 2 by (simp add: length_dropWhile_le)
  ultimately show ?case using r by simp
qed

declare split_spaces.simps [simp del]

section \<open>Style profile and risk scores (server/index.js)\<close>

record styleProfile =
  avgSentenceLength :: real
  sentenceVariance :: real
  commaRate :: real
  questionRate :: real

definition sentenceLengthsOf :: "sentence list \<Rightarrow> real list" where
  \<comment> \<open>\<open>sentences.map((sentence) => sentence.wordCount).filter(Boolean)\<close>\<close>
  "sentenceLengthsOf sentences = map real (filter (\<lambda>n. n \<noteq> 0) (map wordCount sentences))"

definition computeStyleProfile :: "tokenizer \<Rightarrow> string \<Rightarrow> styleProfile option" where
  "computeStyleProfile terms s =
     (if s = [] \<or> trim s = [] then None
      else
        let sentences = splitSentences terms s;
            sentenceLengths = sentenceLengthsOf sentences;
            commaCount = count_list s CHR '','';
            questionCount = count_list s CHR ''?''
        in Some \<lparr> avgSentenceLength = average sentenceLengths,
                  sentenceVariance = stdDev sentenceLengths,
                  commaRate = (if sentenceLengths \<noteq> []
                               then real commaCount / real (length sentenceLengths) else 0),
                  questionRate = (if sentenceLengths \<noteq> []
                               then real questionCount / real (length sentenceLengths) else 0) \<rparr>)"

datatype band = low | moderate | high

fun getRiskColor :: "number \<Rightarrow> band" where
  "getRiskColor (Num score) = (if score < 35 then low else if score < 65 then moderate else high)"
| "getRiskColor NaN = high"

fun roundNumber :: "number \<Rightarrow> number" where
  \<comment> \<open>\<open>Math.round\<close>\<close>
  "roundNumber (Num v) = Num (of_int \<lfloor>v + 1 / 2\<rfloor>)"
| "roundNumber NaN = NaN"

text \<open>
  The four sub-scores below are the expressions of \<open>analyzeText\<close> after its minimum-input
  guard: they are evaluated with at least 20 words and 2 sentences.
\<close>

definition perplexityRisk :: "string list \<Rightarrow> real" where
  "perplexityRisk words =
     (let frequencies = count_all words;
          totalWords = length words;
          uniqueWords = length frequencies;
          probabilities = map (\<lambda>(w, c). real c / real totalWords) frequencies;
          entropy = sum_list (map (\<lambda>p. if p > 0 then - p * log 2 p else 0) probabilities);
          maxEntropy = (if uniqueWords > 1 then log 2 (real uniqueWords) else 1);
          entropyRatio = entropy / maxEntropy;
          maxFrequency = maximum (map snd frequencies);
          repetitionRatio = real maxFrequency / real totalWords
      in clamp ((1 - entropyRatio) * 85 + repetitionRatio * 45))"

definition burstinessRisk :: "sentence list \<Rightarrow> styleProfile option \<Rightarrow> real" where
  "burstinessRisk sentences profile =
     (let sentenceLengths = sentenceLengthsOf sentences;
          sentenceLengthMean = average sentenceLengths;
          sentenceLengthStd = stdDev sentenceLengths;
          sentenceLengthCV = (if sentenceLengthMean \<noteq> 0
                              then sentenceLengthStd / sentenceLengthMean else 0);
          risk = clamp (92 - sentenceLengthCV * 125)
      in case profile of
           None \<Rightarrow> risk
         | Some p \<Rightarrow>
             if sentenceVariance p > 0
             then clamp (risk + max 0 (sentenceVariance p - sentenceLengthStd) * 3.5)
             else risk)"

definition openersOf :: "sentence list \<Rightarrow> string list" where
  \<comment> \<open>\<open>sentences.map((sentence) => sentence.opener || sentence.firstWord).filter(Boolean)\<close>\<close>
  "openersOf sentences =
     filter (\<lambda>w. w \<noteq> [])
       (map (\<lambda>sentence. if opener sentence \<noteq> [] then opener sentence else firstWord sentence)
            sentences)"

definition sentencePatternRisk :: "sentence list \<Rightarrow> number" where
  \<comment> \<open>without openers, \<open>0 / 0\<close> makes the score \<open>NaN\<close>, which \<open>clamp\<close> keeps\<close>
  "sentencePatternRisk sentences =
     (let openers = openersOf sentences;
          openerCounts = count_all openers
      in if openers = [] then NaN
         else
           let dominantOpenerRatio = real (maximum (map snd openerCounts)) / real (length openers);
               openerDiversityRatio = real (length openerCounts) / real (length openers)
           in Num (clamp ((1 - openerDiversityRatio) * 70 + dominantOpenerRatio * 55)))"

definition hedgeDensityOf :: "string \<Rightarrow> sentence list \<Rightarrow> real" where
  "hedgeDensityOf trimmed sentences =
     real (length (hedge_matches None 0 trimmed)) / real (max 1 (length sentences))"

definition vocabularyPredictabilityRisk :: "string \<Rightarrow> sentence list \<Rightarrow> string list \<Rightarrow> real" where
  "vocabularyPredictabilityRisk trimmed sentences words =
     (let frequencies = count_all words;
          totalWords = length words;
          uniqueWords = length frequencies;
          commonWordCount = length (filter (\<lambda>w. w \<in> set COMMON_WORDS) words);
          commonRatio = real commonWordCount / real totalWords;
          hapaxRatio = real (length (filter (\<lambda>(w, c). c = 1) frequencies)) / real uniqueWords;
          risk = clamp (commonRatio * 120 + (1 - hapaxRatio) * 30)
      in clamp (risk + hedgeDensityOf trimmed sentences * 12))"

fun overallRiskOf :: "real \<Rightarrow> real \<Rightarrow> number \<Rightarrow> real \<Rightarrow> number" where
  "overallRiskOf p b (Num s) v = Num (clamp (p * 0.28 + b * 0.24 + s * 0.22 + v * 0.26))"
| "overallRiskOf p b NaN v = NaN"

record 'a five =
  perplexity :: 'a
  burstiness :: 'a
  sentencePatternDiversity :: 'a
  vocabularyPredictability :: 'a
  overallRisk :: 'a

definition riskScores :: "string \<Rightarrow> sentence list \<Rightarrow> string list \<Rightarrow> styleProfile option \<Rightarrow> number five" where
  \<comment> \<open>the five scores before rounding\<close>
  "riskScores trimmed sentences words profile =
     (let p = perplexityRisk words;
          b = burstinessRisk sentences profile;
          s = sentencePatternRisk sentences;
          v = vocabularyPredictabilityRisk trimmed sentences words
      in \<lparr> perplexity = Num p, burstiness = Num b, sentencePatternDiversity = s,
           vocabularyPredictability = Num v, overallRisk = overallRiskOf p b s v \<rparr>)"

definition map_five :: "('a \<Rightarrow> 'b) \<Rightarrow> 'a five \<Rightarrow> 'b five" where
  "map_five f r =
     \<lparr> perplexity = f (perplexity r), burstiness = f (burstiness r),
       sentencePatternDiversity = f (sentencePatternDiversity r),
       vocabularyPredictability = f (vocabularyPredictability r),
       overallRisk = f (overallRisk r) \<rparr>"

section \<open>Suggestion engine (server/index.js)\<close>

datatype suggestion_type =
  vary_sentence_length | swap_predictable_phrasing | add_stylistic_texture
  | diversify_openers | reduce_hedging_uniformity

datatype status = pending | accepted | rejected

text \<open>
  The fields \<open>kind\<close> and \<open>ident\<close> are the fields \<open>type\<close> and \<open>id\<close> of the source. A candidate
  is the object a detector hands to \<open>pushSuggestion\<close>, which adds \<open>id\<close> and \<open>status\<close>.
\<close>

record candidate = span +
  kind :: suggestion_type
  title :: string
  description :: string
  original :: string
  replacement :: string
  riskImpact :: nat

record suggestion = candidate +
  ident :: string
  status :: status

definition digit_char :: "nat \<Rightarrow> char" where
  "digit_char d = ''0123456789'' ! d"

function show_nat :: "nat \<Rightarrow> string" where
  "show_nat n = (if n < 10 then [digit_char n] else show_nat (n div 10) @ [digit_char (n mod 10)])"
  by pat_completeness auto
termination
  by (relation "measure id") auto

declare show_nat.simps [simp del]

definition pushSuggestion :: "candidate \<Rightarrow> suggestion list \<Rightarrow> suggestion list" where
  "pushSuggestion c suggestions =
     (if start c < 0 \<or> end' c \<le> start c then suggestions
      else suggestions @
        [\<lparr> start = start c, end' = end' c, kind = kind c, title = title c,
           description = description c, original = original c, replacement = replacement c,
           riskImpact = riskImpact c,
           ident = ''s-'' @ show_nat (length suggestions + 1), status = pending \<rparr>])"

definition split_at_comma :: "string \<Rightarrow> string \<times> string" where
  "split_at_comma t =
     (let splitIndex = indexOf t '','';
          left = trim (slice t 0 splitIndex);
          right = trim (slice_from t (splitIndex + 1))
      in (left, right))"

definition vary_window :: "sentence \<Rightarrow> sentence \<Rightarrow> sentence \<Rightarrow> suggestion list \<Rightarrow> suggestion list" where
  \<comment> \<open>one turn of the loop over the windows of three sentences; \<open>target\<close> is the middle one\<close>
  "vary_window s0 target s2 suggestions =
     (let lengths = map (\<lambda>sentence. real (wordCount sentence)) [s0, target, s2];
          localStd = stdDev lengths
      in if localStd \<le> 2.2
         then
           if wordCount target > 20 \<and> includes_str (ntext target) '',''
           then
             let (left, right) = split_at_comma (ntext target)
             in if left \<noteq> [] \<and> right \<noteq> []
                then pushSuggestion
                  \<lparr> start = start target, end' = end' target, kind = vary_sentence_length,
                    title = ''Vary sentence length in this run'',
                    description = ''These nearby sentences have very similar length. Splitting this one adds natural rhythm.'',
                    original = raw target,
                    replacement = left @ ''. '' @ capitalizeFirst right,
                    riskImpact = 8 \<rparr> suggestions
                else suggestions
           else suggestions
         else suggestions)"

fun vary_windows :: "sentence list \<Rightarrow> suggestion list \<Rightarrow> suggestion list" where
  "vary_windows (s0 # s1 # s2 # rest) suggestions =
     vary_windows (s1 # s2 # rest) (vary_window s0 s1 s2 suggestions)"
| "vary_windows sentences suggestions = suggestions"

fun push_phrase_matches :: "string \<Rightarrow> (nat \<times> string) list \<Rightarrow> suggestion list \<Rightarrow> suggestion list" where
  \<comment> \<open>the \<open>while\<close> loop over the matches of one phrase; it is left at 40 suggestions\<close>
  "push_phrase_matches repl [] suggestions = suggestions"
| "push_phrase_matches repl (m # ms) suggestions =
     (let matched = snd m;
          next = (if matched \<noteq> [] \<and> hd matched \<in> set upper_letters
                  then capitalizeFirst repl else repl);
          suggestions' = pushSuggestion
            \<lparr> start = int (fst m), end' = int (fst m) + int (length matched),
              kind = swap_predictable_phrasing,
              title = ''Use less templated phrasing'',
              description = ''This phrase is common in generated text. A small wording swap can feel more personal.'',
              original = matched, replacement = next, riskImpact = 6 \<rparr> suggestions
      in if length suggestions' \<ge> 40 then suggestions'
         else push_phrase_matches repl ms suggestions')"

definition swap_phrases :: "string \<Rightarrow> suggestion list \<Rightarrow> suggestion list" where
  \<comment> \<open>\<open>PREDICTABLE_PHRASES.forEach\<close>: every phrase of the catalog gets its turn\<close>
  "swap_phrases t suggestions =
     foldl (\<lambda>acc (phrase, repl).
              push_phrase_matches repl (literal_matches (escapePhrase phrase) None 0 t) acc)
           suggestions PREDICTABLE_PHRASES"

definition add_texture :: "string \<Rightarrow> sentence list \<Rightarrow> styleProfile option \<Rightarrow> suggestion list \<Rightarrow> suggestion list" where
  "add_texture t sentences profile suggestions =
     (let hasTexture = (\<exists>c \<in> set t. c \<in> set ''()?;:'')
      in if \<not> hasTexture \<or> (case profile of None \<Rightarrow> False | Some p \<Rightarrow> commaRate p > 0.4)
         then
           case find (\<lambda>sentence. wordCount sentence \<ge> 14 \<and> \<not> includes_str (ntext sentence) ''('')
                     sentences of
             None \<Rightarrow> suggestions
           | Some textureTarget \<Rightarrow>
               let words = split_spaces (ntext textureTarget);
                   insertAt = min 6 (length words - 1);
                   words' = take insertAt words @ [''(for context),''] @ drop insertAt words
               in pushSuggestion
                    \<lparr> start = start textureTarget, end' = end' textureTarget,
                      kind = add_stylistic_texture,
                      title = ''Add a small human-style aside'',
                      description = ''A brief parenthetical can make polished writing feel more naturally human.'',
                      original = raw textureTarget,
                      replacement = join '' '' words', riskImpact = 5 \<rparr> suggestions
         else suggestions)"

definition opener_rewrite :: "string \<Rightarrow> string" where
  "opener_rewrite t =
     (if starts_with_word ''this'' t then ''In this case, '' @ lowerFirst t
      else if starts_with_word ''the'' t then ''From another angle, '' @ lowerFirst t
      else if starts_with_word ''it'' t then ''At a practical level, '' @ lowerFirst t
      else ''As written here, '' @ lowerFirst t)"

definition push_opener :: "string \<Rightarrow> sentence \<Rightarrow> suggestion list \<Rightarrow> suggestion list" where
  "push_opener w sentence suggestions =
     pushSuggestion
       \<lparr> start = start sentence, end' = end' sentence, kind = diversify_openers,
         title = ''Diversify repetitive sentence starts'',
         description = ''Several sentences start with '' @ [CHR 0x22] @ w @ [CHR 0x22] @
                       ''. Varying one opener reduces structural repetition.'',
         original = raw sentence, replacement = opener_rewrite (ntext sentence),
         riskImpact = 7 \<rparr> suggestions"

definition diversify :: "sentence list \<Rightarrow> suggestion list \<Rightarrow> suggestion list" where
  "diversify sentences suggestions =
     (let openerCounts = count_all (filter (\<lambda>k. k \<noteq> []) (map firstWord sentences));
          repetitiveOpeners = map fst (filter (\<lambda>(w, n). n \<ge> 3) openerCounts)
      in foldl (\<lambda>acc w.
                  let repeatedSentences =
                        take 2 (drop 1 (filter (\<lambda>sentence. firstWord sentence = w) sentences))
                  in foldl (\<lambda>acc' sentence. push_opener w sentence acc') acc repeatedSentences)
               suggestions repetitiveOpeners)"

text \<open>
  \<open>HEDGE_REGEX\<close> is \<open>/\b(may|might|...)\b/gi\<close>: it has one capture group, so
  \<open>String.prototype.replace\<close> calls its callback with the match, the text of the group, the
  offset of the match and the whole string, in this order. The callback of the detector is
  \<open>(hedge, offset) => ...\<close>: its parameter \<open>hedge\<close> is the match and its parameter \<open>offset\<close> is
  the text of the group, not the offset. The second parameter is therefore a JavaScript
  value, a string or a number, and \<open>===\<close> is the equality of such values, under which a
  string and a number are never equal.
\<close>

datatype js_value = JString string | JNumber int

definition hedge_callback :: "string \<Rightarrow> string \<Rightarrow> js_value \<Rightarrow> string" where
  \<comment> \<open>the function \<open>(hedge, offset) => ...\<close> given to \<open>replace\<close>, for the sentence text \<open>whole\<close>\<close>
  "hedge_callback whole hedge offset =
     (if offset = JNumber (indexOf (toLowerCase whole) (toLowerCase hedge)) then [] else hedge)"

function replace_hedges :: "string \<Rightarrow> char option \<Rightarrow> nat \<Rightarrow> string \<Rightarrow> string" where
  \<comment> \<open>\<open>whole.replace(HEDGE_REGEX, callback)\<close>, for the part \<open>s\<close> of \<open>whole\<close> that starts at
      offset \<open>off\<close> after the code unit \<open>prev\<close>. The group spans the whole match \<open>h\<close>, so the
      callback is called with \<open>h\<close>, the text \<open>h\<close> of the group, the number \<open>off\<close> and \<open>whole\<close>,
      of which it takes the first two\<close>
  "replace_hedges whole prev off [] = []"
| "replace_hedges whole prev off (c # cs) =
     (case hedge_here prev (c # cs) of
        None \<Rightarrow> c # replace_hedges whole (Some c) (Suc off) cs
      | Some h \<Rightarrow>
          hedge_callback whole h (JString h)
          @ replace_hedges whole (Some (last h)) (off + length h) (drop (length h) (c # cs)))"
  by pat_completeness auto
termination
proof (relation "measure (\<lambda>(whole, prev, off, s). length s)", goal_cases)
  case 1
  show ?case by simp
next
  case (2 whole prev off c cs)
  then show ?case by simp
next
  case (3 whole prev off c cs h)
  then obtain w where f: "find (\<lambda>w. literal_here w prev (c # cs)) HEDGE_WORDS = Some w"
    and h: "h = take (length w) (c # cs)"
    by (auto simp: hedge_here_def split: option.splits)
  from f have "literal_here w prev (c # cs)"
    by (auto simp: find_Some_iff)
  then have "w \<noteq> []"
    by (auto simp: literal_here_def split: if_splits)
  with h have "0 < length h" by (cases w) auto
  then show ?case by simp
qed

definition hedge_step :: "sentence \<Rightarrow> suggestion list \<Rightarrow> suggestion list" where
  "hedge_step sentence suggestions =
     (if hedge_matches None 0 (ntext sentence) = [] then suggestions
      else
        let repl = trim (collapse_spaces
                          (replace_hedges (ntext sentence) None 0 (ntext sentence)))
        in if repl \<noteq> [] \<and> repl \<noteq> ntext sentence
           then pushSuggestion
                  \<lparr> start = start sentence, end' = end' sentence,
                    kind = reduce_hedging_uniformity,
                    title = ''Reduce repetitive hedging'',
                    description = ''Hedging is useful, but too much in every sentence can look algorithmic.'',
                    original = raw sentence, replacement = repl, riskImpact = 6 \<rparr> suggestions
           else suggestions)"

definition reduce_hedging :: "sentence list \<Rightarrow> real \<Rightarrow> suggestion list \<Rightarrow> suggestion list" where
  "reduce_hedging sentences hedgeDensity suggestions =
     (if hedgeDensity \<ge> 0.5
      then foldl (\<lambda>acc sentence. hedge_step sentence acc) suggestions sentences
      else suggestions)"

definition match_rhythm :: "sentence list \<Rightarrow> real \<Rightarrow> real \<Rightarrow> styleProfile option \<Rightarrow> suggestion list \<Rightarrow> suggestion list" where
  \<comment> \<open>the additional sentence-length guidance aligned with the style profile\<close>
  "match_rhythm sentences sentenceLengthMean sentenceLengthStd profile suggestions =
     (case profile of
        None \<Rightarrow> suggestions
      | Some p \<Rightarrow>
          if sentenceLengthStd < sentenceVariance p * 0.75
          then
            case find (\<lambda>sentence. real (wordCount sentence) > sentenceLengthMean + 7) sentences of
              None \<Rightarrow> suggestions
            | Some longSentence \<Rightarrow>
                if includes_str (ntext longSentence) '',''
                then
                  let (left, right) = split_at_comma (ntext longSentence)
                  in pushSuggestion
                       \<lparr> start = start longSentence, end' = end' longSentence,
                         kind = vary_sentence_length,
                         title = ''Match your usual rhythm'',
                         description = ''Compared to your style sample, this section is rhythmically uniform. Split one sentence to restore your voice.'',
                         original = raw longSentence,
                         replacement = left @ ''. '' @ capitalizeFirst right,
                         riskImpact = 8 \<rparr> suggestions
                else suggestions
          else suggestions)"

definition candidates :: "string \<Rightarrow> sentence list \<Rightarrow> real \<Rightarrow> real \<Rightarrow> real \<Rightarrow> styleProfile option \<Rightarrow> suggestion list" where
  \<comment> \<open>the array \<open>suggestions\<close> of \<open>buildSuggestions\<close> when the last detector is done\<close>
  "candidates t sentences sentenceLengthMean sentenceLengthStd hedgeDensity profile =
     match_rhythm sentences sentenceLengthMean sentenceLengthStd profile
       (reduce_hedging sentences hedgeDensity
         (diversify sentences
           (add_texture t sentences profile
             (swap_phrases t
               (vary_windows sentences [])))))"

definition buildSuggestions :: "string \<Rightarrow> sentence list \<Rightarrow> real \<Rightarrow> real \<Rightarrow> real \<Rightarrow> styleProfile option \<Rightarrow> suggestion list" where
  "buildSuggestions t sentences sentenceLengthMean sentenceLengthStd hedgeDensity profile =
     take 20 (candidates t sentences sentenceLengthMean sentenceLengthStd hedgeDensity profile)"

section \<open>Analysis (server/index.js)\<close>

text \<open>
  Of \<open>insights\<close> the model keeps the counts and the note; the four statistics rounded
  for display by \<open>toFixed\<close> are left out.
\<close>

record insights =
  ins_wordCount :: nat
  ins_sentenceCount :: nat
  ins_note :: "string option"

record analysis =
  metrics :: "number five"
  riskBands :: "band five"
  insights :: insights
  suggestions :: "suggestion list"
  styleProfile :: "styleProfile option"

definition analyzeText :: "tokenizer \<Rightarrow> string \<Rightarrow> string \<Rightarrow> analysis" where
  "analyzeText terms input styleSample =
     (let trimmed = trim input;
          sentences = splitSentences terms trimmed;
          words = tokenizeWords terms trimmed;
          profile = computeStyleProfile terms styleSample
      in if trimmed = [] \<or> length words < 20 \<or> length sentences < 2
         then \<lparr> metrics = \<lparr> perplexity = Num 50, burstiness = Num 50,
                            sentencePatternDiversity = Num 50,
                            vocabularyPredictability = Num 50, overallRisk = Num 50 \<rparr>,
                riskBands = \<lparr> perplexity = moderate, burstiness = moderate,
                              sentencePatternDiversity = moderate,
                              vocabularyPredictability = moderate, overallRisk = moderate \<rparr>,
                insights = \<lparr> ins_wordCount = length words, ins_sentenceCount = length sentences,
                             ins_note = Some ''Add more text for a stronger signal. Roughly 120+ words gives better stability.'' \<rparr>,
                suggestions = [],
                styleProfile = profile \<rparr>
         else
           let scores = riskScores trimmed sentences words profile;
               sentenceLengths = sentenceLengthsOf sentences
           in \<lparr> metrics = map_five roundNumber scores,
                riskBands = map_five getRiskColor scores,
                insights = \<lparr> ins_wordCount = length words, ins_sentenceCount = length sentences,
                             ins_note = None \<rparr>,
                suggestions = buildSuggestions trimmed sentences (average sentenceLengths)
                                (stdDev sentenceLengths) (hedgeDensityOf trimmed sentences) profile,
                styleProfile = profile \<rparr>)"

text \<open>
  What the specification asks of a score, its rounded metric and its band: the score lies
  in \<open>[0, 100]\<close>, the metric is the score rounded to the nearest integer and lies in
  \<open>[0, 100]\<close>, and the band follows the thresholds 35 and 65 on the score.
\<close>

fun well_scored :: "number \<Rightarrow> number \<Rightarrow> band \<Rightarrow> bool" where
  "well_scored (Num score) (Num metric) b =
     (0 \<le> score \<and> score \<le> 100 \<and>
      metric = of_int \<lfloor>score + 1 / 2\<rfloor> \<and> 0 \<le> metric \<and> metric \<le> 100 \<and>
      b = (if score < 35 then low else if score < 65 then moderate else high))"
| "well_scored score metric b = False"

definition preRoundingScores :: "tokenizer \<Rightarrow> string \<Rightarrow> string \<Rightarrow> number five" where
  \<comment> \<open>the scores of an analysis call past the minimum-input guard, before \<open>Math.round\<close>\<close>
  "preRoundingScores terms input styleSample =
     riskScores (trim input) (splitSentences terms (trim input))
       (tokenizeWords terms (trim input)) (computeStyleProfile terms styleSample)"


section \<open>Offset reconciliation (client/src/App.jsx)\<close>

text \<open>
  The state of the component that \<open>applySuggestion\<close> reads and writes: the draft
  (\<open>text\<close>), the suggestion list and the error message.
\<close>

record app_state =
  st_text :: string
  st_suggestions :: "suggestion list"
  st_error :: string

definition locate :: "string \<Rightarrow> suggestion \<Rightarrow> (int \<times> int \<times> string) option" where
  \<comment> \<open>the \<open>start\<close>, \<open>end\<close> and \<open>originalSlice\<close> the edit is made with; \<open>None\<close> is the stale case\<close>
  "locate t sg =
     (let originalSlice = slice t (start sg) (end' sg)
      in if originalSlice \<noteq> original sg
         then
           let exact = indexOf t (original sg)
           in if exact \<ge> 0
              then Some (exact, exact + int (length (original sg)), original sg)
              else
                let compact = trim (original sg);
                    fallback = (if compact \<noteq> [] then indexOf t compact else - 1)
                in if fallback < 0 then None
                   else Some (fallback, fallback + int (length compact), compact)
         else Some (start sg, end' sg, originalSlice))"

definition stale_message :: string where
  "stale_message = ''This suggestion no longer lines up with the current text. Run Analyze again.''"

definition applySuggestion :: "string \<Rightarrow> app_state \<Rightarrow> app_state" where
  "applySuggestion i st =
     (case find (\<lambda>item. ident item = i) (st_suggestions st) of
        None \<Rightarrow> st
      | Some sg \<Rightarrow>
          if status sg \<noteq> pending then st
          else
            (case locate (st_text st) sg of
              None \<Rightarrow> st \<lparr> st_error := stale_message \<rparr>
            | Some (locStart, locEnd, originalSlice) \<Rightarrow>
                let nextText = slice (st_text st) 0 locStart @ replacement sg
                                 @ slice_from (st_text st) locEnd;
                    delta = int (length (replacement sg)) - int (length originalSlice);
                    nextSuggestions =
                      map (\<lambda>item.
                             if ident item = i
                             then item \<lparr> status := accepted, start := locStart,
                                        end' := locStart + int (length (replacement sg)) \<rparr>
                             else if start item \<ge> locEnd
                             then item \<lparr> start := start item + delta, end' := end' item + delta \<rparr>
                             else item)
                          (st_suggestions st)
                in st \<lparr> st_text := nextText, st_suggestions := nextSuggestions \<rparr>))"

definition rejectSuggestion :: "string \<Rightarrow> app_state \<Rightarrow> app_state" where
  "rejectSuggestion i st =
     st \<lparr> st_suggestions :=
            map (\<lambda>sg. if ident sg = i then sg \<lparr> status := rejected \<rparr> else sg)
                (st_suggestions st) \<rparr>"

section \<open>A concrete tokenizer\<close>

text \<open>
  Modelled from the spec: the tokenizer of the library \<open>compromise\<close> is missing from the
  sources. Section 4.1 of the specification asks for a stream of word-like tokens in which
  a contraction stays one token; \<open>word_terms\<close> takes the maximal runs without white space.
  It only serves to evaluate the model on concrete texts.
\<close>

definition word_terms :: tokenizer where
  "word_terms s = filter (\<lambda>w. w \<noteq> []) (split_spaces s)"

text \<open>
  The characters that \<open>tokenizeWords\<close> keeps: those that the pattern \<open>/[^a-z']/g\<close> does not
  strip once the token is in lower case.
\<close>

definition wordy :: "char \<Rightarrow> bool" where
  "wordy c = (toLowerCase_char c \<in> set (lower_letters @ [CHR 0x27]))"

section \<open>Literal occurrences\<close>

text \<open>
  The words of the specification for the fallback search: a literal occurrence of a
  pattern at an offset, the first one, and none at all.
\<close>

definition occurs_at :: "string \<Rightarrow> string \<Rightarrow> nat \<Rightarrow> bool" where
  "occurs_at t pat k = (k + length pat \<le> length t \<and> take (length pat) (drop k t) = pat)"

definition first_occurrence :: "string \<Rightarrow> string \<Rightarrow> nat \<Rightarrow> bool" where
  "first_occurrence t pat k = (occurs_at t pat k \<and> list_all (\<lambda>j. \<not> occurs_at t pat j) [0..<k])"

definition no_occurrence :: "string \<Rightarrow> string \<Rightarrow> bool" where
  "no_occurrence t pat = list_all (\<lambda>j. \<not> occurs_at t pat j) [0..<Suc (length t)]"


section \<open>Sentence-level suggestions\<close>


definition built_from :: "string \<Rightarrow> suggestion \<Rightarrow> bool" where
  "built_from t sg =
     (case kind sg of
        vary_sentence_length \<Rightarrow>
          replacement sg =
            fst (split_at_comma t) @ ''. '' @ capitalizeFirst (snd (split_at_comma t))
      | add_stylistic_texture \<Rightarrow>
          replacement sg =
            (let words = split_spaces t;
                 insertAt = min 6 (length words - 1)
             in join '' '' (take insertAt words @ [''(for context),''] @ drop insertAt words))
      | diversify_openers \<Rightarrow> replacement sg = opener_rewrite t
      | reduce_hedging_uniformity \<Rightarrow>
          replacement sg = trim (collapse_spaces (replace_hedges t None 0 t))
      | swap_predictable_phrasing \<Rightarrow> False)"

definition covers :: "sentence \<Rightarrow> suggestion \<Rightarrow> bool" where
  "covers s sg =
     (start sg = start s \<and> end' sg = end' s \<and> original sg = raw s \<and>
      built_from (ntext s) sg \<and>
      replacement sg \<noteq> [] \<and> \<not> is_space (hd (replacement sg)) \<and> status sg = pending)"

definition trimmed_text :: "sentence \<Rightarrow> bool" where
  "trimmed_text s = (ntext s \<noteq> [] \<and> \<not> is_space (hd (ntext s)))"


section \<open>Example editor states\<close>

text \<open>
  \<open>moved_example\<close> is a suggestion for a phrase at the start of a draft. \<open>spaced_example\<close> is a
  suggestion for a sentence whose raw span begins with a blank, as held by the editor
  after the sentence before it, and the blank, were deleted from the draft.
\<close>

definition moved_example :: suggestion where
  "moved_example =
     \<lparr> start = 0, end' = 11, kind = swap_predictable_phrasing, title = [], description = [],
       original = ''furthermore'', replacement = ''also'', riskImpact = 6,
       ident = ''s-1'', status = pending \<rparr>"

definition spaced_example :: suggestion where
  "spaced_example =
     \<lparr> start = 13, end' = 23, kind = diversify_openers, title = [], description = [],
       original = '' It is ok.'', replacement = ''At a practical level, it is ok.'', riskImpact = 7,
       ident = ''s-1'', status = pending \<rparr>"

definition editor :: "string \<Rightarrow> suggestion list \<Rightarrow> app_state" where
  "editor t sgs = \<lparr> st_text = t, st_suggestions = sgs, st_error = [] \<rparr>"

text \<open>
  \<open>three_example\<close> is an editor state with three suggestions for phrases of the draft, each
  at the span of its phrase; the replacement of the second is three characters longer than
  its original.
\<close>

definition earlier_example :: suggestion where
  "earlier_example =
     \<lparr> start = 0, end' = 11, kind = swap_predictable_phrasing, title = [], description = [],
       original = ''in addition'', replacement = ''plus'', riskImpact = 6,
       ident = ''s-1'', status = pending \<rparr>"

definition middle_example :: suggestion where
  "middle_example =
     \<lparr> start = 18, end' = 25, kind = swap_predictable_phrasing, title = [], description = [],
       original = ''overall'', replacement = ''all in all'', riskImpact = 6,
       ident = ''s-2'', status = pending \<rparr>"

definition last_example :: suggestion where
  "last_example =
     \<lparr> start = 32, end' = 43, kind = swap_predictable_phrasing, title = [], description = [],
       original = ''furthermore'', replacement = ''also'', riskImpact = 6,
       ident = ''s-3'', status = pending \<rparr>"

definition three_example :: app_state where
  "three_example =
     editor ''in addition it is overall fine, furthermore''
       [earlier_example, middle_example, last_example]"


section \<open>Example documents\<close>

text \<open>
  \<open>cap_text\<close> repeats the phrase \<open>moreover\<close> 40 times and then uses the phrase \<open>overall\<close>, which
  comes later in the catalog.
\<close>

definition cap_text :: string where
  "cap_text = concat (replicate 40 ''moreover '') @ ''overall. ok''"


text \<open>
  \<open>padded_text\<close> is a draft of 21 words in two sentences, with two blanks in front.
\<close>

definition padded_text :: string where
  "padded_text = ''  In conclusion, it is ok. We do it as is, so go on if he is in or up to it.''"



definition hedged_text :: string where
  "hedged_text = ''It may  go on. We may do it as is, so go on if he is in or up to it.''"


definition padded_list :: "suggestion list" where
  "padded_list =
     diversify (splitSentences word_terms (trim padded_text))
       (add_texture (trim padded_text) (splitSentences word_terms (trim padded_text)) None
         (swap_phrases (trim padded_text) []))"



definition hedged_list :: "suggestion list" where
  "hedged_list =
     foldl (\<lambda>acc sentence. hedge_step sentence acc)
       (diversify (splitSentences word_terms (trim hedged_text))
         (add_texture (trim hedged_text) (splitSentences word_terms (trim hedged_text)) None
           (swap_phrases (trim hedged_text) [])))
       (splitSentences word_terms (trim hedged_text))"


definition note_text :: string where
  "note_text = ''It is important to note that this works.''"

section \<open>Properties of the segmenter\<close>

lemma slice_in_range:
  assumes "0 \<le> a" and "a \<le> b" and "b \<le> int (length t)"
  shows "slice t a b = take (nat (b - a)) (drop (nat a) t)"
  using assms by (simp add: slice_def Let_def min_def)

lemma sentence_match_prefix:
  fixes c :: char and cs :: string
  assumes "\<not> is_stop c"
  defines "run \<equiv> takeWhile (\<lambda>x. \<not> is_stop x) (c # cs)"
    and "rest \<equiv> dropWhile (\<lambda>x. \<not> is_stop x) (c # cs)"
  defines "m \<equiv> (case rest of [] \<Rightarrow> run | d # ds \<Rightarrow> if is_terminal d then run @ [d] else run)"
  shows "m \<noteq> [] \<and> length m \<le> length (c # cs) \<and> m = take (length m) (c # cs)"
proof -
  have id: "run @ rest = c # cs"
    by (simp add: run_def rest_def)
  have ne: "run \<noteq> []"
    using assms(1) by (simp add: run_def)
  show ?thesis
  proof (cases rest)
    case Nil
    then have "m = run" by (simp add: m_def)
    with id Nil ne show ?thesis by auto
  next
    case (Cons d ds)
    show ?thesis
    proof (cases "is_terminal d")
      case True
      with Cons have m: "m = run @ [d]" by (simp add: m_def)
      from id Cons have "c # cs = (run @ [d]) @ ds" by simp
      with m show ?thesis by (metis append_eq_conv_conj append_is_Nil_conv length_append le_add1 not_Cons_self2)
    next
      case False
      with Cons have m: "m = run" by (simp add: m_def)
      from id have "c # cs = run @ rest" by simp
      with m ne show ?thesis by (metis append_eq_conv_conj length_append le_add1)
    qed
  qed
qed

lemma sentence_matches_span:
  "(i, m) \<in> set (sentence_matches off xs) \<Longrightarrow>
     off \<le> i \<and> m \<noteq> [] \<and> i + length m \<le> off + length xs \<and>
     m = take (length m) (drop (i - off) xs)"
proof (induction off xs arbitrary: i m rule: sentence_matches.induct)
  case (1 off)
  then show ?case by simp
next
  case (2 off c cs)
  show ?case
  proof (cases "is_stop c")
    case True
    with 2 have "(i, m) \<in> set (sentence_matches (Suc off) cs)" by simp
    from "2.IH"(1) [OF True this]
    have ih: "Suc off \<le> i \<and> m \<noteq> [] \<and> i + length m \<le> Suc off + length cs \<and>
              m = take (length m) (drop (i - Suc off) cs)" .
    then have "i - off = Suc (i - Suc off)" by arith
    then have "drop (i - off) (c # cs) = drop (i - Suc off) cs" by simp
    with ih show ?thesis by auto
  next
    case False
    define run where "run = takeWhile (\<lambda>x. \<not> is_stop x) (c # cs)"
    define rest where "rest = dropWhile (\<lambda>x. \<not> is_stop x) (c # cs)"
    define m0 where "m0 = (case rest of [] \<Rightarrow> run | d # ds \<Rightarrow> if is_terminal d then run @ [d] else run)"
    have p: "m0 \<noteq> [] \<and> length m0 \<le> length (c # cs) \<and> m0 = take (length m0) (c # cs)"
      unfolding m0_def rest_def run_def using sentence_match_prefix [OF False] by simp
    have eq: "sentence_matches off (c # cs) =
        (off, m0) # sentence_matches (off + length m0) (drop (length m0) (c # cs))"
      using False by (simp only: sentence_matches.simps Let_def m0_def rest_def run_def if_False)
    from 2(3) have mem: "(i, m) = (off, m0) \<or>
        (i, m) \<in> set (sentence_matches (off + length m0) (drop (length m0) (c # cs)))"
      unfolding eq by simp
    then show ?thesis
    proof
      assume "(i, m) = (off, m0)"
      with p show ?thesis by auto
    next
      assume a: "(i, m) \<in> set (sentence_matches (off + length m0) (drop (length m0) (c # cs)))"
      have ih: "off + length m0 \<le> i \<and> m \<noteq> [] \<and>
                i + length m \<le> off + length m0 + length (drop (length m0) (c # cs)) \<and>
                m = take (length m) (drop (i - (off + length m0)) (drop (length m0) (c # cs)))"
        using "2.IH"(2) [OF False run_def rest_def m0_def a] .
      have "drop (i - (off + length m0)) (drop (length m0) (c # cs)) = drop (i - off) (c # cs)"
        using ih by simp
      with ih p show ?thesis by auto
    qed
  qed
qed


lemma collect_sentences_span:
  "s \<in> set (collect_sentences terms ms acc) \<Longrightarrow>
     s \<in> set acc \<or>
     (\<exists>(i, m) \<in> set ms. start s = int i \<and> end' s = int i + int (length m) \<and> raw s = m)"
proof (induction ms arbitrary: acc)
  case Nil
  then show ?case by simp
next
  case (Cons m ms)
  show ?case
  proof (cases "trim (snd m) = []")
    case True
    with Cons.prems have "s \<in> set (collect_sentences terms ms acc)" by simp
    from Cons.IH [OF this] show ?thesis by auto
  next
    case False
    with Cons.prems have
      "s \<in> set (collect_sentences terms ms (acc @ [make_sentence terms (length acc) m]))"
      by simp
    from Cons.IH [OF this] show ?thesis
      by (cases m) (auto simp: make_sentence_def Let_def)
  qed
qed

text \<open>
  C9. For every input text and every sentence record of the segmenter,
  \<open>0 \<le> start < end \<le> length text\<close> and the raw span text of the sentence is
  \<open>text.slice(start, end)\<close>.
\<close>

theorem C9_sentence_span:
  "\<forall>s \<in> set (splitSentences terms t).
     0 \<le> start s \<and> start s < end' s \<and> end' s \<le> int (length t) \<and>
     raw s = slice t (start s) (end' s)"
proof
  fix s
  assume "s \<in> set (splitSentences terms t)"
  then obtain i m where im: "(i, m) \<in> set (sentence_matches 0 t)"
    and s: "start s = int i" "end' s = int i + int (length m)" "raw s = m"
    using collect_sentences_span [of s terms "sentence_matches 0 t" "[]"]
    by (auto simp: splitSentences_def)
  from sentence_matches_span [OF im]
  have m: "m \<noteq> []" "i + length m \<le> length t" "m = take (length m) (drop i t)"
    by auto
  have "slice t (int i) (int i + int (length m)) = take (length m) (drop i t)"
    using m(2) by (subst slice_in_range) auto
  with s m show "0 \<le> start s \<and> start s < end' s \<and> end' s \<le> int (length t) \<and>
     raw s = slice t (start s) (end' s)"
    by auto
qed


theorem C9_sentence_span_witness:
  "splitSentences word_terms ''Hi there. Go now!'' ! 1
     \<in> set (splitSentences word_terms ''Hi there. Go now!'') \<and>
   raw (splitSentences word_terms ''Hi there. Go now!'' ! 1) = '' Go now!'' \<and>
   0 \<le> start (splitSentences word_terms ''Hi there. Go now!'' ! 1) \<and>
   start (splitSentences word_terms ''Hi there. Go now!'' ! 1)
     < end' (splitSentences word_terms ''Hi there. Go now!'' ! 1) \<and>
   end' (splitSentences word_terms ''Hi there. Go now!'' ! 1)
     \<le> int (length ''Hi there. Go now!'') \<and>
   raw (splitSentences word_terms ''Hi there. Go now!'' ! 1) =
     slice ''Hi there. Go now!'' (start (splitSentences word_terms ''Hi there. Go now!'' ! 1))
       (end' (splitSentences word_terms ''Hi there. Go now!'' ! 1))"
proof -
  have len: "length (splitSentences word_terms ''Hi there. Go now!'') = 2"
    by code_simp
  have r: "raw (splitSentences word_terms ''Hi there. Go now!'' ! 1) = '' Go now!''"
    by code_simp
  have mem: "splitSentences word_terms ''Hi there. Go now!'' ! 1
      \<in> set (splitSentences word_terms ''Hi there. Go now!'')"
    by (rule nth_mem) (simp add: len)
  from mem r bspec [OF C9_sentence_span [of word_terms "''Hi there. Go now!''"] mem]
  show ?thesis by (intro conjI) blast+
qed

section \<open>Properties of the offset reconciliation\<close>

lemma starts_with_iff: "starts_with pat s \<longleftrightarrow> length pat \<le> length s \<and> take (length pat) s = pat"
  by (induction pat s rule: starts_with.induct) auto

lemma occurs_at_Cons: "occurs_at (c # cs) pat (Suc k) = occurs_at cs pat k"
  by (simp add: occurs_at_def)

lemma occurs_at_0: "occurs_at s pat 0 = starts_with pat s"
  by (auto simp: occurs_at_def starts_with_iff)

lemma index_from_result:
  "(index_from pat s i = - 1 \<and> (\<forall>j \<le> length s. \<not> occurs_at s pat j)) \<or>
   (\<exists>k \<le> length s. index_from pat s i = int (i + k) \<and> occurs_at s pat k \<and>
      (\<forall>j < k. \<not> occurs_at s pat j))"
proof (induction s arbitrary: i)
  case Nil
  show ?case by (cases pat) (auto simp: occurs_at_def)
next
  case (Cons c cs)
  show ?case
  proof (cases "starts_with pat (c # cs)")
    case True
    then have "index_from pat (c # cs) i = int (i + 0) \<and> occurs_at (c # cs) pat 0"
      by (simp add: occurs_at_0)
    then show ?thesis by blast
  next
    case False
    then have eq: "index_from pat (c # cs) i = index_from pat cs (Suc i)" by simp
    have n0: "\<not> occurs_at (c # cs) pat 0" using False by (simp add: occurs_at_0)
    from Cons [of "Suc i"] show ?thesis
    proof
      assume a: "index_from pat cs (Suc i) = - 1 \<and> (\<forall>j \<le> length cs. \<not> occurs_at cs pat j)"
      have "\<forall>j \<le> length (c # cs). \<not> occurs_at (c # cs) pat j"
      proof (intro allI impI)
        fix j assume "j \<le> length (c # cs)"
        then show "\<not> occurs_at (c # cs) pat j"
          using a n0 by (cases j) (auto simp: occurs_at_Cons)
      qed
      with a eq show ?thesis by simp
    next
      assume "\<exists>k \<le> length cs. index_from pat cs (Suc i) = int (Suc i + k) \<and> occurs_at cs pat k \<and>
        (\<forall>j < k. \<not> occurs_at cs pat j)"
      then obtain k where k: "k \<le> length cs" "index_from pat cs (Suc i) = int (Suc i + k)"
        "occurs_at cs pat k" "\<forall>j < k. \<not> occurs_at cs pat j" by blast
      have "\<forall>j < Suc k. \<not> occurs_at (c # cs) pat j"
      proof (intro allI impI)
        fix j assume "j < Suc k"
        then show "\<not> occurs_at (c # cs) pat j"
          using k(4) n0 by (cases j) (auto simp: occurs_at_Cons)
      qed
      with k eq have "Suc k \<le> length (c # cs) \<and> index_from pat (c # cs) i = int (i + Suc k) \<and>
          occurs_at (c # cs) pat (Suc k) \<and> (\<forall>j < Suc k. \<not> occurs_at (c # cs) pat j)"
        by (simp add: occurs_at_Cons)
      then show ?thesis by blast
    qed
  qed
qed

lemma indexOf_found:
  assumes "0 \<le> indexOf t pat"
  shows "first_occurrence t pat (nat (indexOf t pat))"
proof -
  from index_from_result [of pat t 0] assms
  obtain k where "indexOf t pat = int k" "occurs_at t pat k" "\<forall>j < k. \<not> occurs_at t pat j"
    by (auto simp: indexOf_def)
  then show ?thesis by (simp add: first_occurrence_def list_all_iff)
qed

lemma indexOf_missing:
  assumes "indexOf t pat < 0"
  shows "no_occurrence t pat"
proof -
  from index_from_result [of pat t 0] assms
  have "\<forall>j \<le> length t. \<not> occurs_at t pat j"
    by (auto simp: indexOf_def)
  then show ?thesis by (simp add: no_occurrence_def list_all_iff)
qed

lemma applySuggestion_stale:
  assumes "find (\<lambda>item. ident item = i) (st_suggestions st) = Some sg"
    and "status sg = pending" and "locate (st_text st) sg = None"
  shows "applySuggestion i st = st \<lparr> st_error := stale_message \<rparr>"
  using assms by (simp add: applySuggestion_def)

lemma applySuggestion_located:
  assumes "find (\<lambda>item. ident item = i) (st_suggestions st) = Some sg"
    and "status sg = pending" and "locate (st_text st) sg = Some (a, b, o')"
  shows "st_text (applySuggestion i st) =
           slice (st_text st) 0 a @ replacement sg @ slice_from (st_text st) b"
    and "st_error (applySuggestion i st) = st_error st"
    and "st_suggestions (applySuggestion i st) =
           map (\<lambda>item.
                  if ident item = i
                  then item \<lparr> status := accepted, start := a,
                             end' := a + int (length (replacement sg)) \<rparr>
                  else if start item \<ge> b
                  then item \<lparr> start := start item + (int (length (replacement sg)) - int (length o')),
                             end' := end' item + (int (length (replacement sg)) - int (length o')) \<rparr>
                  else item)
               (st_suggestions st)"
  using assms by (simp_all add: applySuggestion_def Let_def)

lemma indexOf_neg_iff: "indexOf t pat < 0 \<longleftrightarrow> no_occurrence t pat"
proof
  assume "indexOf t pat < 0"
  then show "no_occurrence t pat" by (rule indexOf_missing)
next
  assume n: "no_occurrence t pat"
  show "indexOf t pat < 0"
  proof (rule ccontr)
    assume "\<not> indexOf t pat < 0"
    then have "first_occurrence t pat (nat (indexOf t pat))"
      by (intro indexOf_found) simp
    then have o: "occurs_at t pat (nat (indexOf t pat))"
      by (simp add: first_occurrence_def)
    then have "nat (indexOf t pat) \<le> length t"
      by (simp add: occurs_at_def)
    with n o show False
      by (auto simp: no_occurrence_def list_all_iff)
  qed
qed

text \<open>
  C3. For an accept operation on a pending suggestion, the recorded original is located
  first at its recorded span; if the substring there differs, at the first literal
  occurrence of the original in the draft; failing that, at the first literal occurrence
  of the trimmed original. If all three fail, the operation reports the stale suggestion
  and leaves the draft and every suggestion unchanged. The third step is guarded by
  \<open>compact ? text.indexOf(compact) : -1\<close>, so an original that trimming leaves empty is
  reported stale as well; the engine never records such an original
  (\<open>buildSuggestions_original\<close>).
\<close>

theorem C3_locate_or_stale:
  assumes found: "find (\<lambda>item. ident item = i) (st_suggestions st) = Some sg"
    and pending: "status sg = pending"
  shows
    "(slice (st_text st) (start sg) (end' sg) = original sg \<longrightarrow>
        st_text (applySuggestion i st) =
          slice (st_text st) 0 (start sg) @ replacement sg @ slice_from (st_text st) (end' sg)) \<and>
     (slice (st_text st) (start sg) (end' sg) \<noteq> original sg \<and>
      \<not> no_occurrence (st_text st) (original sg) \<longrightarrow>
        (\<exists>k. first_occurrence (st_text st) (original sg) k \<and>
           st_text (applySuggestion i st) =
             slice (st_text st) 0 (int k) @ replacement sg @
             slice_from (st_text st) (int k + int (length (original sg))))) \<and>
     (slice (st_text st) (start sg) (end' sg) \<noteq> original sg \<and>
      no_occurrence (st_text st) (original sg) \<and> trim (original sg) \<noteq> [] \<and>
      \<not> no_occurrence (st_text st) (trim (original sg)) \<longrightarrow>
        (\<exists>k. first_occurrence (st_text st) (trim (original sg)) k \<and>
           st_text (applySuggestion i st) =
             slice (st_text st) 0 (int k) @ replacement sg @
             slice_from (st_text st) (int k + int (length (trim (original sg)))))) \<and>
     (slice (st_text st) (start sg) (end' sg) \<noteq> original sg \<and>
      no_occurrence (st_text st) (original sg) \<and>
      (trim (original sg) = [] \<or> no_occurrence (st_text st) (trim (original sg))) \<longrightarrow>
        applySuggestion i st = st \<lparr> st_error := stale_message \<rparr>)"
proof (intro conjI impI)
  assume "slice (st_text st) (start sg) (end' sg) = original sg"
  then have "locate (st_text st) sg = Some (start sg, end' sg, original sg)"
    by (simp add: locate_def)
  from applySuggestion_located(1) [OF found pending this]
  show "st_text (applySuggestion i st) =
          slice (st_text st) 0 (start sg) @ replacement sg @ slice_from (st_text st) (end' sg)" .
next
  assume a: "slice (st_text st) (start sg) (end' sg) \<noteq> original sg \<and>
      \<not> no_occurrence (st_text st) (original sg)"
  then have ge: "0 \<le> indexOf (st_text st) (original sg)"
    using indexOf_neg_iff [of "st_text st" "original sg"] by simp
  define k where "k = nat (indexOf (st_text st) (original sg))"
  have ik: "indexOf (st_text st) (original sg) = int k" using ge by (simp add: k_def)
  have fo: "first_occurrence (st_text st) (original sg) k"
    unfolding k_def by (rule indexOf_found [OF ge])
  have "locate (st_text st) sg = Some (int k, int k + int (length (original sg)), original sg)"
    using a ge ik by (simp add: locate_def Let_def)
  from applySuggestion_located(1) [OF found pending this] fo
  show "\<exists>k. first_occurrence (st_text st) (original sg) k \<and>
           st_text (applySuggestion i st) =
             slice (st_text st) 0 (int k) @ replacement sg @
             slice_from (st_text st) (int k + int (length (original sg)))"
    by blast
next
  assume a: "slice (st_text st) (start sg) (end' sg) \<noteq> original sg \<and>
      no_occurrence (st_text st) (original sg) \<and> trim (original sg) \<noteq> [] \<and>
      \<not> no_occurrence (st_text st) (trim (original sg))"
  then have lt: "indexOf (st_text st) (original sg) < 0"
    and ge: "0 \<le> indexOf (st_text st) (trim (original sg))"
    using indexOf_neg_iff [of "st_text st" "original sg"]
      indexOf_neg_iff [of "st_text st" "trim (original sg)"] by simp_all
  define k where "k = nat (indexOf (st_text st) (trim (original sg)))"
  have ik: "indexOf (st_text st) (trim (original sg)) = int k" using ge by (simp add: k_def)
  have fo: "first_occurrence (st_text st) (trim (original sg)) k"
    unfolding k_def by (rule indexOf_found [OF ge])
  have "locate (st_text st) sg =
      Some (int k, int k + int (length (trim (original sg))), trim (original sg))"
    using a lt ge ik by (simp add: locate_def Let_def)
  from applySuggestion_located(1) [OF found pending this] fo
  show "\<exists>k. first_occurrence (st_text st) (trim (original sg)) k \<and>
           st_text (applySuggestion i st) =
             slice (st_text st) 0 (int k) @ replacement sg @
             slice_from (st_text st) (int k + int (length (trim (original sg))))"
    by blast
next
  assume a: "slice (st_text st) (start sg) (end' sg) \<noteq> original sg \<and>
      no_occurrence (st_text st) (original sg) \<and>
      (trim (original sg) = [] \<or> no_occurrence (st_text st) (trim (original sg)))"
  then have lt: "indexOf (st_text st) (original sg) < 0"
    using indexOf_neg_iff [of "st_text st" "original sg"] by simp
  from a have "trim (original sg) = [] \<or> indexOf (st_text st) (trim (original sg)) < 0"
    using indexOf_neg_iff [of "st_text st" "trim (original sg)"] by blast
  with a lt have "locate (st_text st) sg = None"
    by (auto simp: locate_def Let_def)
  from applySuggestion_stale [OF found pending this]
  show "applySuggestion i st = st \<lparr> st_error := stale_message \<rparr>" .
qed

theorem C3_locate_or_stale_witness:
  "slice (st_text (editor ''furthermore it is fine'' [moved_example]))
     (start moved_example) (end' moved_example) = original moved_example \<and>
   st_text (applySuggestion ''s-1'' (editor ''furthermore it is fine'' [moved_example])) =
     ''also it is fine'' \<and>
   \<not> no_occurrence (st_text (editor ''so furthermore it is'' [moved_example]))
        (original moved_example) \<and>
   (\<exists>k. first_occurrence ''so furthermore it is'' ''furthermore'' k \<and>
      st_text (applySuggestion ''s-1'' (editor ''so furthermore it is'' [moved_example])) =
        slice ''so furthermore it is'' 0 (int k) @ ''also'' @
        slice_from ''so furthermore it is'' (int k + 11)) \<and>
   no_occurrence (st_text (editor ''It is ok. So it is.'' [spaced_example]))
     (original spaced_example) \<and>
   (\<exists>k. first_occurrence ''It is ok. So it is.'' ''It is ok.'' k \<and>
      st_text (applySuggestion ''s-1'' (editor ''It is ok. So it is.'' [spaced_example])) =
        slice ''It is ok. So it is.'' 0 (int k) @ ''At a practical level, it is ok.'' @
        slice_from ''It is ok. So it is.'' (int k + 9)) \<and>
   no_occurrence (st_text (editor ''all is fine'' [moved_example])) (trim (original moved_example)) \<and>
   applySuggestion ''s-1'' (editor ''all is fine'' [moved_example]) =
     (editor ''all is fine'' [moved_example]) \<lparr> st_error := stale_message \<rparr>"
proof -
  let ?s1 = "editor ''furthermore it is fine'' [moved_example]"
  let ?s2 = "editor ''so furthermore it is'' [moved_example]"
  let ?s3 = "editor ''It is ok. So it is.'' [spaced_example]"
  let ?s4 = "editor ''all is fine'' [moved_example]"
  have f: "find (\<lambda>item. ident item = ''s-1'') (st_suggestions ?s1) = Some moved_example"
    "find (\<lambda>item. ident item = ''s-1'') (st_suggestions ?s2) = Some moved_example"
    "find (\<lambda>item. ident item = ''s-1'') (st_suggestions ?s3) = Some spaced_example"
    "find (\<lambda>item. ident item = ''s-1'') (st_suggestions ?s4) = Some moved_example"
    by (simp_all add: editor_def moved_example_def spaced_example_def)
  have p: "status moved_example = pending" "status spaced_example = pending"
    by (simp_all add: moved_example_def spaced_example_def)
  have v: "st_text ?s1 = ''furthermore it is fine''" "st_text ?s2 = ''so furthermore it is''"
    "st_text ?s3 = ''It is ok. So it is.''"
    "original moved_example = ''furthermore''" "replacement moved_example = ''also''"
    "original spaced_example = '' It is ok.''"
    "replacement spaced_example = ''At a practical level, it is ok.''"
    "start moved_example = 0" "end' moved_example = 11"
    by (simp_all add: editor_def moved_example_def spaced_example_def)
  have c1: "slice (st_text ?s1) (start moved_example) (end' moved_example) = original moved_example"
    and r1: "slice ''furthermore it is fine'' 0 0 @ ''also'' @ slice_from ''furthermore it is fine'' 11
             = ''also it is fine''"
    and c2: "slice (st_text ?s2) (start moved_example) (end' moved_example) \<noteq> original moved_example \<and>
             \<not> no_occurrence (st_text ?s2) (original moved_example)"
    and c3: "slice (st_text ?s3) (start spaced_example) (end' spaced_example) \<noteq> original spaced_example \<and>
             no_occurrence (st_text ?s3) (original spaced_example) \<and>
             trim (original spaced_example) \<noteq> [] \<and>
             \<not> no_occurrence (st_text ?s3) (trim (original spaced_example))"
    and t3: "trim '' It is ok.'' = ''It is ok.''" "int (length ''It is ok.'') = 9"
      "int (length ''furthermore'') = 11"
    and c4: "slice (st_text ?s4) (start moved_example) (end' moved_example) \<noteq> original moved_example \<and>
           no_occurrence (st_text ?s4) (original moved_example) \<and>
           (trim (original moved_example) = [] \<or>
            no_occurrence (st_text ?s4) (trim (original moved_example)))"
    and n4: "no_occurrence (st_text ?s4) (trim (original moved_example))"
    by code_simp+
  from C3_locate_or_stale [OF f(1) p(1)] c1
  have e1: "st_text (applySuggestion ''s-1'' ?s1) = ''also it is fine''"
    by (simp only: v r1)
  from C3_locate_or_stale [OF f(2) p(1)] c2
  have e2: "\<exists>k. first_occurrence ''so furthermore it is'' ''furthermore'' k \<and>
      st_text (applySuggestion ''s-1'' ?s2) =
        slice ''so furthermore it is'' 0 (int k) @ ''also'' @
        slice_from ''so furthermore it is'' (int k + 11)"
    by (simp only: v t3) blast
  from C3_locate_or_stale [OF f(3) p(2)] c3
  have e3: "\<exists>k. first_occurrence ''It is ok. So it is.'' ''It is ok.'' k \<and>
      st_text (applySuggestion ''s-1'' ?s3) =
        slice ''It is ok. So it is.'' 0 (int k) @ ''At a practical level, it is ok.'' @
        slice_from ''It is ok. So it is.'' (int k + 9)"
    by (simp only: v t3) blast
  from C3_locate_or_stale [OF f(4) p(1)] c4
  have e4: "applySuggestion ''s-1'' ?s4 = ?s4 \<lparr> st_error := stale_message \<rparr>"
    by blast
  from c1 e1 c2 e2 c3 e3 n4 e4 show ?thesis by blast
qed

text \<open>
  C2. When an accept operation replaces the located span by a replacement that is
  longer by \<open>N\<close> characters, every other suggestion whose start is at or after the end of
  the located span has its start and its end shifted by exactly \<open>N\<close>, and every other
  suggestion whose span ends before that point is unchanged.
\<close>

theorem C2_shift_after_edit:
  assumes found: "find (\<lambda>item. ident item = i) (st_suggestions st) = Some sg"
    and pending: "status sg = pending"
    and located: "locate (st_text st) sg = Some (a, b, o')"
    and k: "k < length (st_suggestions st)"
    and other: "ident (st_suggestions st ! k) \<noteq> i"
  shows
    "length (st_suggestions (applySuggestion i st)) = length (st_suggestions st) \<and>
     (b \<le> start (st_suggestions st ! k) \<longrightarrow>
        start (st_suggestions (applySuggestion i st) ! k) =
          start (st_suggestions st ! k) + (int (length (replacement sg)) - int (length o')) \<and>
        end' (st_suggestions (applySuggestion i st) ! k) =
          end' (st_suggestions st ! k) + (int (length (replacement sg)) - int (length o'))) \<and>
     (start (st_suggestions st ! k) < end' (st_suggestions st ! k) \<and>
      end' (st_suggestions st ! k) \<le> b \<longrightarrow>
        st_suggestions (applySuggestion i st) ! k = st_suggestions st ! k)"
  using k other by (simp add: applySuggestion_located(3) [OF found pending located])

theorem C2_shift_after_edit_witness:
  "find (\<lambda>item. ident item = ''s-2'') (st_suggestions three_example) = Some middle_example \<and>
   status middle_example = pending \<and>
   locate (st_text three_example) middle_example = Some (18, 25, ''overall'') \<and>
   int (length (replacement middle_example)) - int (length ''overall'') = 3 \<and>
   st_suggestions three_example ! 2 = last_example \<and>
   start (st_suggestions (applySuggestion ''s-2'' three_example) ! 2) = 32 + 3 \<and>
   end' (st_suggestions (applySuggestion ''s-2'' three_example) ! 2) = 43 + 3 \<and>
   st_suggestions three_example ! 0 = earlier_example \<and>
   st_suggestions (applySuggestion ''s-2'' three_example) ! 0 = earlier_example"
proof -
  let ?st = "three_example"
  have f: "find (\<lambda>item. ident item = ''s-2'') (st_suggestions ?st) = Some middle_example"
    by (simp add: three_example_def editor_def earlier_example_def middle_example_def)
  have p: "status middle_example = pending"
    by (simp add: middle_example_def)
  have l: "locate (st_text ?st) middle_example = Some (18, 25, ''overall'')"
    by code_simp
  have n: "int (length (replacement middle_example)) - int (length ''overall'') = 3"
    by (simp add: middle_example_def)
  have k: "2 < length (st_suggestions ?st)" "0 < length (st_suggestions ?st)"
    by (simp_all add: three_example_def editor_def)
  have i: "st_suggestions ?st ! 2 = last_example" "st_suggestions ?st ! 0 = earlier_example"
    by (simp_all add: three_example_def editor_def)
  have o: "ident (st_suggestions ?st ! 2) \<noteq> ''s-2''" "ident (st_suggestions ?st ! 0) \<noteq> ''s-2''"
    by (simp_all add: i last_example_def earlier_example_def)
  have after: "(25::int) \<le> start (st_suggestions ?st ! 2)"
    by (simp add: i last_example_def)
  have before: "start (st_suggestions ?st ! 0) < end' (st_suggestions ?st ! 0) \<and>
      end' (st_suggestions ?st ! 0) \<le> (25::int)"
    by (simp add: i earlier_example_def)
  have v: "start last_example = 32" "end' last_example = 43"
    by (simp_all add: last_example_def)
  from C2_shift_after_edit [OF f p l k(1) o(1)] after
  have "start (st_suggestions (applySuggestion ''s-2'' ?st) ! 2) =
          start (st_suggestions ?st ! 2) + (int (length (replacement middle_example)) - int (length ''overall''))"
    and "end' (st_suggestions (applySuggestion ''s-2'' ?st) ! 2) =
          end' (st_suggestions ?st ! 2) + (int (length (replacement middle_example)) - int (length ''overall''))"
    by blast+
  then have s: "start (st_suggestions (applySuggestion ''s-2'' ?st) ! 2) = 32 + 3"
    "end' (st_suggestions (applySuggestion ''s-2'' ?st) ! 2) = 43 + 3"
    by (simp_all only: n i v)
  from C2_shift_after_edit [OF f p l k(2) o(2)] before
  have "st_suggestions (applySuggestion ''s-2'' ?st) ! 0 = st_suggestions ?st ! 0"
    by blast
  then have u: "st_suggestions (applySuggestion ''s-2'' ?st) ! 0 = earlier_example"
    by (simp only: i)
  from f p l n i s u show ?thesis by blast
qed

section \<open>Properties of the analysis\<close>

text \<open>
  C4. For every input whose tokenized word count is below 20 or whose sentence count is
  below 2, the analysis returns the metrics 50, 50, 50, 50, 50, every band moderate and
  no suggestion.
\<close>

theorem C4_minimum_input:
  assumes "length (tokenizeWords terms (trim input)) < 20 \<or>
           length (splitSentences terms (trim input)) < 2"
  shows "metrics (analyzeText terms input styleSample) =
           \<lparr> perplexity = Num 50, burstiness = Num 50, sentencePatternDiversity = Num 50,
             vocabularyPredictability = Num 50, overallRisk = Num 50 \<rparr> \<and>
         riskBands (analyzeText terms input styleSample) =
           \<lparr> perplexity = moderate, burstiness = moderate, sentencePatternDiversity = moderate,
             vocabularyPredictability = moderate, overallRisk = moderate \<rparr> \<and>
         suggestions (analyzeText terms input styleSample) = []"
  using assms by (auto simp: analyzeText_def Let_def)

theorem C4_minimum_input_witness:
  "length (tokenizeWords word_terms (trim ''Hi there. Go now!'')) < 20 \<and>
   metrics (analyzeText word_terms ''Hi there. Go now!'' []) =
           \<lparr> perplexity = Num 50, burstiness = Num 50, sentencePatternDiversity = Num 50,
             vocabularyPredictability = Num 50, overallRisk = Num 50 \<rparr> \<and>
   riskBands (analyzeText word_terms ''Hi there. Go now!'' []) =
           \<lparr> perplexity = moderate, burstiness = moderate, sentencePatternDiversity = moderate,
             vocabularyPredictability = moderate, overallRisk = moderate \<rparr> \<and>
   suggestions (analyzeText word_terms ''Hi there. Go now!'' []) = []"
proof -
  have w: "length (tokenizeWords word_terms (trim ''Hi there. Go now!'')) < 20"
    by code_simp
  from C4_minimum_input [of word_terms "''Hi there. Go now!''" "[]"] w
  show ?thesis by blast
qed

section \<open>Properties of the phrase detector\<close>

lemma ci_prefix_first:
  "ci_prefix pat s \<Longrightarrow> pat \<noteq> [] \<Longrightarrow>
     s \<noteq> [] \<and> toUpperCase_char (hd s) = toUpperCase_char (hd pat)"
  by (cases pat; cases s) (auto split: if_splits)

lemma ci_prefix_length: "ci_prefix pat s \<Longrightarrow> length pat \<le> length s"
  by (induction pat s rule: ci_prefix.induct) (auto split: if_splits)

lemma literal_here_D:
  "literal_here pat prev s \<Longrightarrow> pat \<noteq> [] \<and> ci_prefix pat s \<and> length pat \<le> length s"
  by (auto simp: literal_here_def ci_prefix_length split: if_splits)

lemma literal_matches_no_first:
  assumes "pat \<noteq> []" and "toUpperCase_char (hd pat) \<notin> toUpperCase_char ` set s"
  shows "literal_matches pat prev off s = []"
  using assms(2)
proof (induction s arbitrary: prev off)
  case Nil
  show ?case by simp
next
  case (Cons c cs)
  have "\<not> literal_here pat prev (c # cs)"
  proof
    assume "literal_here pat prev (c # cs)"
    then have "ci_prefix pat (c # cs)" by (simp add: literal_here_D)
    from ci_prefix_first [OF this assms(1)] Cons.prems show False by simp
  qed
  moreover have "literal_matches pat (Some c) (Suc off) cs = []"
    using Cons by simp
  ultimately show ?case by simp
qed

lemma literal_matches_snd:
  "m \<in> set (literal_matches pat prev off s) \<Longrightarrow> snd m \<noteq> []"
proof (induction pat prev off s rule: literal_matches.induct)
  case (1 pat prev off)
  then show ?case by simp
next
  case (2 pat prev off c cs)
  show ?case
  proof (cases "literal_here pat prev (c # cs)")
    case True
    then have "pat \<noteq> []" by (simp add: literal_here_D)
    then have "take (length pat) (c # cs) \<noteq> []" by (cases pat) auto
    with 2 True show ?thesis by auto
  next
    case False
    with 2 show ?thesis by auto
  qed
qed

lemma length_pushSuggestion:
  "0 \<le> start c \<Longrightarrow> start c < end' c \<Longrightarrow> length (pushSuggestion c acc) = Suc (length acc)"
  by (simp add: pushSuggestion_def)

lemma push_phrase_matches_fill:
  "\<forall>m \<in> set ms. snd m \<noteq> [] \<Longrightarrow> length acc < 40 \<Longrightarrow> 40 \<le> length acc + length ms \<Longrightarrow>
     length (push_phrase_matches r ms acc) = 40"
proof (induction ms arbitrary: acc)
  case Nil
  then show ?case by simp
next
  case (Cons m ms)
  let ?acc' = "pushSuggestion
            \<lparr> start = int (fst m), end' = int (fst m) + int (length (snd m)),
              kind = swap_predictable_phrasing,
              title = ''Use less templated phrasing'',
              description = ''This phrase is common in generated text. A small wording swap can feel more personal.'',
              original = snd m,
              replacement = (if snd m \<noteq> [] \<and> hd (snd m) \<in> set upper_letters
                  then capitalizeFirst r else r), riskImpact = 6 \<rparr> acc"
  have len: "length ?acc' = Suc (length acc)"
    using Cons.prems(1) by (intro length_pushSuggestion) auto
  show ?case
  proof (cases "40 \<le> length ?acc'")
    case True
    then have "push_phrase_matches r (m # ms) acc = ?acc'"
      by (simp add: Let_def)
    with True len Cons.prems(2) show ?thesis by simp
  next
    case False
    then have eq: "push_phrase_matches r (m # ms) acc = push_phrase_matches r ms ?acc'"
      by (simp add: Let_def)
    have "length (push_phrase_matches r ms ?acc') = 40"
      using Cons.prems False len by (intro Cons.IH) auto
    with eq show ?thesis by simp
  qed
qed

lemma push_phrase_matches_over:
  assumes "snd m \<noteq> []" and "40 \<le> length acc"
  shows "length (push_phrase_matches r (m # ms) acc) = Suc (length acc)"
proof -
  let ?acc' = "pushSuggestion
            \<lparr> start = int (fst m), end' = int (fst m) + int (length (snd m)),
              kind = swap_predictable_phrasing,
              title = ''Use less templated phrasing'',
              description = ''This phrase is common in generated text. A small wording swap can feel more personal.'',
              original = snd m,
              replacement = (if snd m \<noteq> [] \<and> hd (snd m) \<in> set upper_letters
                  then capitalizeFirst r else r), riskImpact = 6 \<rparr> acc"
  have len: "length ?acc' = Suc (length acc)"
    using assms(1) by (intro length_pushSuggestion) auto
  with assms(2) have "push_phrase_matches r (m # ms) acc = ?acc'"
    by (simp add: Let_def)
  with len show ?thesis by simp
qed

lemma upper_values:
  "toUpperCase_char CHR ''m'' = CHR ''M''" "toUpperCase_char CHR ''o'' = CHR ''O''"
  "toUpperCase_char CHR ''r'' = CHR ''R''" "toUpperCase_char CHR ''e'' = CHR ''E''"
  "toUpperCase_char CHR ''v'' = CHR ''V''" "toUpperCase_char CHR ''a'' = CHR ''A''"
  "toUpperCase_char CHR ''l'' = CHR ''L''" "toUpperCase_char CHR '' '' = CHR '' ''"
  by code_simp+

lemma word_values:
  "is_word CHR ''m''" "is_word CHR ''r''" "is_word CHR ''o''" "is_word CHR ''l''"
  "\<not> is_word CHR '' ''" "\<not> is_word CHR ''.''"
  by code_simp+

lemma moreover_block:
  assumes "\<not> word_opt prev"
  shows "literal_matches ''moreover'' prev off (''moreover '' @ rest) =
           (off, ''moreover'') # literal_matches ''moreover'' (Some CHR '' '') (off + 9) rest"
  using assms
  by (simp add: literal_here_def boundary_def head_def word_opt_def upper_values word_values eval_nat_numeral)

lemma moreover_run:
  "\<not> word_opt prev \<Longrightarrow>
     n \<le> length (literal_matches ''moreover'' prev off (concat (replicate n ''moreover '') @ rest))"
proof (induction n arbitrary: prev off)
  case 0
  show ?case by simp
next
  case (Suc n)
  have "\<not> word_opt (Some CHR '' '')"
    by (simp add: word_opt_def word_values)
  from Suc.IH [OF this, of "off + 9"] moreover_block [OF Suc.prems]
  show ?case by (simp del: literal_matches.simps)
qed

lemma overall_block:
  "literal_matches ''overall'' prev off (''moreover '' @ rest) =
     literal_matches ''overall'' (Some CHR '' '') (off + 9) rest"
  by (simp add: literal_here_def boundary_def head_def word_opt_def upper_values word_values eval_nat_numeral)

lemma overall_run:
  "literal_matches ''overall'' (Some CHR '' '') off (concat (replicate n ''moreover '') @ rest) =
     literal_matches ''overall'' (Some CHR '' '') (off + 9 * n) rest"
proof (induction n arbitrary: off)
  case 0
  show ?case by simp
next
  case (Suc n)
  from Suc.IH [of "off + 9"] overall_block [of "Some CHR '' ''" off]
  show ?case by (simp del: literal_matches.simps add: algebra_simps)
qed

lemma overall_tail:
  "literal_matches ''overall'' (Some CHR '' '') off ''overall. ok'' =
     (off, ''overall'') # literal_matches ''overall'' (Some CHR ''l'') (off + 7) ''. ok''"
  by (simp add: literal_here_def boundary_def head_def word_opt_def upper_values word_values eval_nat_numeral)

lemma overall_run_from:
  "literal_matches ''overall'' prev off (concat (replicate (Suc n) ''moreover '') @ rest) =
     literal_matches ''overall'' (Some CHR '' '') (off + 9 * Suc n) rest"
proof -
  have "literal_matches ''overall'' prev off (concat (replicate (Suc n) ''moreover '') @ rest) =
        literal_matches ''overall'' prev off (''moreover '' @ (concat (replicate n ''moreover '') @ rest))"
    by simp
  also have "\<dots> = literal_matches ''overall'' (Some CHR '' '') (off + 9)
                     (concat (replicate n ''moreover '') @ rest)"
    by (rule overall_block)
  also have "\<dots> = literal_matches ''overall'' (Some CHR '' '') (off + 9 + 9 * n) rest"
    by (rule overall_run)
  finally show ?thesis by (simp add: algebra_simps)
qed

lemma catalog_escape:
  "map (\<lambda>(phrase, repl). escapePhrase phrase) PREDICTABLE_PHRASES = map fst PREDICTABLE_PHRASES"
  by code_simp

lemma cap_text_set: "set cap_text = set ''moreover overall. ok''"
  by (auto simp: cap_text_def)

lemma cap_text_absent:
  "toUpperCase_char CHR ''i'' \<notin> toUpperCase_char ` set cap_text"
  "toUpperCase_char CHR ''t'' \<notin> toUpperCase_char ` set cap_text"
  "toUpperCase_char CHR ''f'' \<notin> toUpperCase_char ` set cap_text"
  unfolding cap_text_set by code_simp+

lemma cap_text_no_match:
  "literal_matches ''in conclusion'' None 0 cap_text = []"
  "literal_matches ''it is important to note that'' None 0 cap_text = []"
  "literal_matches ''the purpose of this'' None 0 cap_text = []"
  "literal_matches ''there are several'' None 0 cap_text = []"
  "literal_matches ''this demonstrates that'' None 0 cap_text = []"
  "literal_matches ''in addition'' None 0 cap_text = []"
  "literal_matches ''furthermore'' None 0 cap_text = []"
  "literal_matches ''it should be noted that'' None 0 cap_text = []"
  by (rule literal_matches_no_first, simp, simp add: cap_text_absent)+

text \<open>
  C8. The claim is that the detector for predictable phrasing appends nothing once the
  list holds 40 entries. On \<open>cap_text\<close> the phrase \<open>moreover\<close> fills the list to 40, the
  \<open>return\<close> only leaves the callback of that phrase, and the phrase \<open>overall\<close> appends entry 41.
\<close>

theorem C8_cap_is_passed:
  "length (swap_phrases cap_text []) = 41"
proof -
  have m8: "40 \<le> length (literal_matches ''moreover'' None 0 cap_text)"
    unfolding cap_text_def
    using moreover_run [of None 40 0 "''overall. ok''"] by (simp add: word_opt_def)
  have a8: "length (push_phrase_matches ''on top of that''
                      (literal_matches ''moreover'' None 0 cap_text) []) = 40"
    using m8 by (intro push_phrase_matches_fill) (auto dest: literal_matches_snd)
  have "literal_matches ''overall'' None 0 cap_text =
          literal_matches ''overall'' (Some CHR '' '') (0 + 9 * Suc 39) ''overall. ok''"
    unfolding cap_text_def using overall_run_from [of None 0 39 "''overall. ok''"] by simp
  then obtain m ms where m9: "literal_matches ''overall'' None 0 cap_text = m # ms"
    using overall_tail [of "0 + 9 * Suc 39"] by simp
  then have "m \<in> set (literal_matches ''overall'' None 0 cap_text)" by simp
  then have s9: "snd m \<noteq> []" by (rule literal_matches_snd)
  have a9: "length (push_phrase_matches ''all in all'' (literal_matches ''overall'' None 0 cap_text)
              (push_phrase_matches ''on top of that''
                      (literal_matches ''moreover'' None 0 cap_text) [])) = 41"
    unfolding m9 using push_phrase_matches_over [OF s9, of _ "''all in all''" ms] a8 by simp
  have esc: "escapePhrase ''in conclusion'' = ''in conclusion''"
    "escapePhrase ''it is important to note that'' = ''it is important to note that''"
    "escapePhrase ''the purpose of this'' = ''the purpose of this''"
    "escapePhrase ''there are several'' = ''there are several''"
    "escapePhrase ''this demonstrates that'' = ''this demonstrates that''"
    "escapePhrase ''in addition'' = ''in addition''"
    "escapePhrase ''furthermore'' = ''furthermore''"
    "escapePhrase ''moreover'' = ''moreover''"
    "escapePhrase ''overall'' = ''overall''"
    "escapePhrase ''it should be noted that'' = ''it should be noted that''"
    using catalog_escape by (simp_all add: PREDICTABLE_PHRASES_def del: escapePhrase.simps)
  have "swap_phrases cap_text [] =
          push_phrase_matches ''all in all'' (literal_matches ''overall'' None 0 cap_text)
              (push_phrase_matches ''on top of that''
                      (literal_matches ''moreover'' None 0 cap_text) [])"
    by (simp add: swap_phrases_def PREDICTABLE_PHRASES_def esc cap_text_no_match
          del: escapePhrase.simps)
  with a9 show ?thesis by simp
qed

lemma swap_phrases_note_text:
  "swap_phrases note_text [] =
     [\<lparr> start = 0, end' = 28, kind = swap_predictable_phrasing,
        title = ''Use less templated phrasing'',
        description = ''This phrase is common in generated text. A small wording swap can feel more personal.'',
        original = ''It is important to note that'', replacement = ''Worth noting:'',
        riskImpact = 6, ident = ''s-1'', status = pending \<rparr>]"
  by code_simp

text \<open>
  C6, as the specification states it, fails on the code: no suggestion for the document
  has the capitalized form of \<open>note that\<close> as its replacement.
\<close>

theorem C6_note_that_counterexample:
  "\<not> (\<exists>sg \<in> set (swap_phrases ''It is important to note that this works.'' []).
        replacement sg = capitalizeFirst ''note that'')"
proof -
  have "capitalizeFirst ''note that'' = ''Note that''" by code_simp
  then show ?thesis
    using swap_phrases_note_text by (simp add: note_text_def)
qed

text \<open>
  C6, amended. Applying the detector for predictable phrasing to the document
  \<open>It is important to note that this works.\<close> yields one suggestion, whose span starts at
  offset 0, whose original is \<open>It is important to note that\<close>, and whose replacement is the
  capitalized form of \<open>worth noting:\<close>, which the catalog gives for that phrase.
\<close>

theorem C6_worth_noting:
  "\<exists>sg. swap_phrases ''It is important to note that this works.'' [] = [sg] \<and>
        start sg = 0 \<and> end' sg = 28 \<and>
        original sg = ''It is important to note that'' \<and>
        replacement sg = capitalizeFirst ''worth noting:'' \<and>
        (toLowerCase (original sg), ''worth noting:'') \<in> set PREDICTABLE_PHRASES"
proof -
  have c: "capitalizeFirst ''worth noting:'' = ''Worth noting:''" by code_simp
  have l: "toLowerCase ''It is important to note that'' = ''it is important to note that''"
    by code_simp
  have p: "(''it is important to note that'', ''worth noting:'') \<in> set PREDICTABLE_PHRASES"
    by (simp add: PREDICTABLE_PHRASES_def)
  show ?thesis
    using swap_phrases_note_text c l p by (simp add: note_text_def)
qed

section \<open>Properties of the scores\<close>

lemma clamp_range: "0 \<le> clamp v \<and> clamp v \<le> 100"
  by (simp add: clamp_def)

lemma well_scored_clamp:
  "well_scored (Num (clamp v)) (roundNumber (Num (clamp v))) (getRiskColor (Num (clamp v)))"
proof -
  have r: "0 \<le> clamp v" "clamp v \<le> 100" using clamp_range by auto
  have "(0::int) \<le> \<lfloor>clamp v + 1 / 2\<rfloor>" using r by simp
  moreover have "\<lfloor>clamp v + 1 / 2\<rfloor> \<le> (100::int)"
  proof -
    have "clamp v + 1 / 2 < 101" using r by simp
    then have "\<lfloor>clamp v + 1 / 2\<rfloor> < (101::int)" by (simp add: floor_less_iff)
    then show ?thesis by simp
  qed
  ultimately show ?thesis using r by simp
qed

lemma perplexityRisk_clamp: "\<exists>v. perplexityRisk ws = clamp v"
  by (auto simp: perplexityRisk_def Let_def)

lemma burstinessRisk_clamp: "\<exists>v. burstinessRisk ss p = clamp v"
  by (auto simp: burstinessRisk_def Let_def split: option.splits)

lemma vocabularyPredictabilityRisk_clamp: "\<exists>v. vocabularyPredictabilityRisk t ss ws = clamp v"
  by (auto simp: vocabularyPredictabilityRisk_def Let_def)

lemma sentencePatternRisk_clamp:
  "openersOf ss \<noteq> [] \<Longrightarrow> \<exists>v. sentencePatternRisk ss = Num (clamp v)"
  by (auto simp: sentencePatternRisk_def Let_def)

lemma sentencePatternRisk_NaN:
  "openersOf ss = [] \<Longrightarrow> sentencePatternRisk ss = NaN"
  by (simp add: sentencePatternRisk_def Let_def)

text \<open>
  With the tokenizer \<open>word_terms\<close>, a text in which \<open>tokenizeWords\<close> finds a word has a sentence
  with an opener: the character that makes the word is neither white space nor a sentence
  stop, so it lies in one match of the sentence pattern and survives the trim of that match.
\<close>

lemma tokenizeWords_nonempty:
  "tokenizeWords terms s \<noteq> [] \<longleftrightarrow> (\<exists>w \<in> set (terms s). \<exists>c \<in> set w. wordy c)"
  by (auto simp: tokenizeWords_def wordy_def toLowerCase_def filter_empty_conv)

lemma tokenizeWords_words: "w \<in> set (tokenizeWords terms s) \<Longrightarrow> w \<noteq> []"
  by (simp add: tokenizeWords_def)

lemma wordy_chars:
  "\<forall>c \<in> set (upper_letters @ lower_letters @ [CHR 0x27]). \<not> is_space c \<and> \<not> is_stop c"
  by code_simp

lemma wordy_plain:
  assumes "wordy c"
  shows "\<not> is_space c \<and> \<not> is_stop c"
proof -
  have "c \<in> set (upper_letters @ lower_letters @ [CHR 0x27])"
  proof (cases "map_of (zip upper_letters lower_letters) c")
    case None
    with assms show ?thesis by (auto simp: wordy_def toLowerCase_char_def)
  next
    case (Some d)
    then have "(c, d) \<in> set (zip upper_letters lower_letters)" by (rule map_of_SomeD)
    then have "c \<in> set upper_letters" by (rule set_zip_leftD)
    then show ?thesis by simp
  qed
  with wordy_chars show ?thesis by blast
qed

lemma split_spaces_unfold:
  "split_spaces s =
     (if dropWhile (\<lambda>c. \<not> is_space c) s = [] then [takeWhile (\<lambda>c. \<not> is_space c) s]
      else takeWhile (\<lambda>c. \<not> is_space c) s #
           split_spaces (dropWhile is_space (dropWhile (\<lambda>c. \<not> is_space c) s)))"
  by (subst split_spaces.simps) (simp only: Let_def)

lemma split_spaces_last:
  "dropWhile (\<lambda>c. \<not> is_space c) s = [] \<Longrightarrow>
   split_spaces s = [takeWhile (\<lambda>c. \<not> is_space c) s]"
  by (rule trans [OF split_spaces_unfold if_P])

lemma split_spaces_more:
  "dropWhile (\<lambda>c. \<not> is_space c) s \<noteq> [] \<Longrightarrow>
   split_spaces s = takeWhile (\<lambda>c. \<not> is_space c) s #
     split_spaces (dropWhile is_space (dropWhile (\<lambda>c. \<not> is_space c) s))"
  by (rule trans [OF split_spaces_unfold if_not_P])

lemma in_dropWhile: "c \<in> set xs \<Longrightarrow> \<not> P c \<Longrightarrow> c \<in> set (dropWhile P xs)"
proof -
  assume a: "c \<in> set xs" "\<not> P c"
  have "set xs = set (takeWhile P xs) \<union> set (dropWhile P xs)"
    by (simp only: set_append [symmetric] takeWhile_dropWhile_id)
  with a(1) have "c \<in> set (takeWhile P xs) \<or> c \<in> set (dropWhile P xs)" by simp
  with a(2) show ?thesis by (auto dest: set_takeWhileD)
qed

lemma in_takeWhile_or_dropWhile:
  "c \<in> set xs \<Longrightarrow> c \<in> set (takeWhile P xs) \<or> c \<in> set (dropWhile P xs)"
proof -
  assume a: "c \<in> set xs"
  have "set xs = set (takeWhile P xs) \<union> set (dropWhile P xs)"
    by (simp only: set_append [symmetric] takeWhile_dropWhile_id)
  with a show ?thesis by simp
qed

lemma split_spaces_subset: "w \<in> set (split_spaces s) \<Longrightarrow> set w \<subseteq> set s"
proof (induction s arbitrary: w rule: split_spaces.induct)
  case (1 s)
  let ?w = "takeWhile (\<lambda>c. \<not> is_space c) s"
  let ?r = "dropWhile (\<lambda>c. \<not> is_space c) s"
  have tw: "set ?w \<subseteq> set s" by (rule set_takeWhileD [THEN conjunct1, THEN subsetI])
  show ?case
  proof (cases "?r = []")
    case True
    then have "split_spaces s = [?w]" by (rule split_spaces_last)
    with 1(2) have "w = ?w" by simp
    with tw show ?thesis by simp
  next
    case False
    then have "split_spaces s = ?w # split_spaces (dropWhile is_space ?r)"
      by (rule split_spaces_more)
    with 1(2) have "w = ?w \<or> w \<in> set (split_spaces (dropWhile is_space ?r))" by simp
    then show ?thesis
    proof
      assume "w = ?w"
      with tw show ?thesis by simp
    next
      assume "w \<in> set (split_spaces (dropWhile is_space ?r))"
      from "1.IH" [OF refl refl False this]
      have "set w \<subseteq> set (dropWhile is_space ?r)" .
      also have "\<dots> \<subseteq> set ?r" by (rule set_dropWhileD [THEN subsetI])
      also have "\<dots> \<subseteq> set s" by (rule set_dropWhileD [THEN subsetI])
      finally show ?thesis .
    qed
  qed
qed

lemma split_spaces_covers:
  "c \<in> set s \<Longrightarrow> \<not> is_space c \<Longrightarrow> \<exists>w \<in> set (split_spaces s). c \<in> set w"
proof (induction s rule: split_spaces.induct)
  case (1 s)
  let ?w = "takeWhile (\<lambda>c. \<not> is_space c) s"
  let ?r = "dropWhile (\<lambda>c. \<not> is_space c) s"
  from in_takeWhile_or_dropWhile [OF 1(2)] have cases: "c \<in> set ?w \<or> c \<in> set ?r" .
  show ?case
  proof (cases "?r = []")
    case True
    then have "split_spaces s = [?w]" by (rule split_spaces_last)
    moreover from cases have "c \<in> set ?w" unfolding True by simp
    ultimately show ?thesis by simp
  next
    case False
    then have eq: "split_spaces s = ?w # split_spaces (dropWhile is_space ?r)"
      by (rule split_spaces_more)
    from cases show ?thesis
    proof
      assume "c \<in> set ?w"
      with eq show ?thesis by simp
    next
      assume "c \<in> set ?r"
      from in_dropWhile [where P = is_space, OF this 1(3)] have "c \<in> set (dropWhile is_space ?r)" .
      from "1.IH" [OF refl refl False this 1(3)]
      obtain w where "w \<in> set (split_spaces (dropWhile is_space ?r))" "c \<in> set w" by blast
      with eq show ?thesis by auto
    qed
  qed
qed

lemma in_trim: "c \<in> set m \<Longrightarrow> \<not> is_space c \<Longrightarrow> c \<in> set (trim m)"
  by (simp add: trim_def in_dropWhile)

lemma sentence_matches_covers:
  "c \<in> set xs \<Longrightarrow> \<not> is_stop c \<Longrightarrow> \<exists>m \<in> set (sentence_matches off xs). c \<in> set (snd m)"
proof (induction off xs rule: sentence_matches.induct)
  case (1 off)
  then show ?case by simp
next
  case (2 off c0 cs)
  show ?case
  proof (cases "is_stop c0")
    case True
    with 2(3,4) have "c \<in> set cs" by auto
    from "2.IH"(1) [OF True this 2(4)] True show ?thesis by simp
  next
    case False
    define run where "run = takeWhile (\<lambda>x. \<not> is_stop x) (c0 # cs)"
    define rest where "rest = dropWhile (\<lambda>x. \<not> is_stop x) (c0 # cs)"
    define m0 where "m0 = (case rest of [] \<Rightarrow> run | d # ds \<Rightarrow> if is_terminal d then run @ [d] else run)"
    have p: "m0 \<noteq> [] \<and> length m0 \<le> length (c0 # cs) \<and> m0 = take (length m0) (c0 # cs)"
      unfolding m0_def rest_def run_def using sentence_match_prefix [OF False] by simp
    have eq: "sentence_matches off (c0 # cs) =
        (off, m0) # sentence_matches (off + length m0) (drop (length m0) (c0 # cs))"
      using False by (simp only: sentence_matches.simps Let_def m0_def rest_def run_def if_False)
    have "set (c0 # cs) = set (take (length m0) (c0 # cs)) \<union> set (drop (length m0) (c0 # cs))"
      by (simp only: set_append [symmetric] append_take_drop_id)
    with 2(3) p have "c \<in> set m0 \<or> c \<in> set (drop (length m0) (c0 # cs))"
      by auto
    then show ?thesis
    proof
      assume "c \<in> set m0"
      then show ?thesis unfolding eq by simp
    next
      assume "c \<in> set (drop (length m0) (c0 # cs))"
      from "2.IH"(2) [OF False run_def rest_def m0_def this 2(4)]
      show ?thesis unfolding eq by auto
    qed
  qed
qed

lemma collect_sentences_keeps:
  "s \<in> set acc \<Longrightarrow> s \<in> set (collect_sentences terms ms acc)"
  by (induction ms arbitrary: acc) auto

lemma collect_sentences_makes:
  "m \<in> set ms \<Longrightarrow> trim (snd m) \<noteq> [] \<Longrightarrow>
     \<exists>s \<in> set (collect_sentences terms ms acc).
        opener s = join '' '' (take 2 (tokenizeWords terms (trim (snd m))))"
proof (induction ms arbitrary: acc)
  case Nil
  then show ?case by simp
next
  case (Cons m' ms)
  show ?case
  proof (cases "m = m'")
    case True
    have "make_sentence terms (length acc) m \<in>
        set (collect_sentences terms ms (acc @ [make_sentence terms (length acc) m]))"
      by (rule collect_sentences_keeps) simp
    moreover have "opener (make_sentence terms (length acc) m) =
        join '' '' (take 2 (tokenizeWords terms (trim (snd m))))"
      by (simp add: make_sentence_def Let_def)
    ultimately show ?thesis using True Cons.prems(2) by auto
  next
    case False
    with Cons.prems have "m \<in> set ms" by simp
    from Cons.IH [OF this Cons.prems(2)] show ?thesis by auto
  qed
qed

lemma opener_nonempty:
  assumes "tokenizeWords terms s \<noteq> []"
  shows "join '' '' (take 2 (tokenizeWords terms s)) \<noteq> []"
proof -
  from assms obtain w ws where l: "tokenizeWords terms s = w # ws"
    by (cases "tokenizeWords terms s") auto
  then have "w \<noteq> []" using tokenizeWords_words [of w terms s] by simp
  then show ?thesis unfolding l by (cases ws) auto
qed

lemma word_terms_openers:
  assumes "tokenizeWords word_terms t \<noteq> []"
  shows "openersOf (splitSentences word_terms t) \<noteq> []"
proof -
  from assms obtain w c where w: "w \<in> set (word_terms t)" and c: "c \<in> set w" "wordy c"
    by (auto simp: tokenizeWords_nonempty)
  from w have "w \<in> set (split_spaces t)" by (simp add: word_terms_def)
  with c(1) have ct: "c \<in> set t" using split_spaces_subset by blast
  from wordy_plain [OF c(2)] have plain: "\<not> is_space c" "\<not> is_stop c" by auto
  from sentence_matches_covers [OF ct plain(2), of 0]
  obtain m where m: "m \<in> set (sentence_matches 0 t)" "c \<in> set (snd m)" by blast
  from in_trim [OF m(2) plain(1)] have cm: "c \<in> set (trim (snd m))" .
  then have ne: "trim (snd m) \<noteq> []" by auto
  from collect_sentences_makes [OF m(1) ne, of word_terms "[]"]
  obtain s where s: "s \<in> set (splitSentences word_terms t)"
    "opener s = join '' '' (take 2 (tokenizeWords word_terms (trim (snd m))))"
    by (auto simp: splitSentences_def)
  from split_spaces_covers [OF cm plain(1)]
  obtain w' where "w' \<in> set (split_spaces (trim (snd m)))" "c \<in> set w'" by blast
  then have "w' \<in> set (word_terms (trim (snd m)))" by (auto simp: word_terms_def)
  with \<open>c \<in> set w'\<close> c(2) have "tokenizeWords word_terms (trim (snd m)) \<noteq> []"
    by (auto simp: tokenizeWords_nonempty)
  from opener_nonempty [OF this] s(2) have "opener s \<noteq> []" by simp
  with s(1) show ?thesis
    by (auto simp: openersOf_def filter_empty_conv)
qed

lemma padded_valid:
  "trim padded_text \<noteq> []"
  "20 \<le> length (tokenizeWords word_terms (trim padded_text))"
  "2 \<le> length (splitSentences word_terms (trim padded_text))"
  "openersOf (splitSentences word_terms (trim padded_text)) \<noteq> []"
  by code_simp+


text \<open>
  C5. For every input that meets the minimum-input floor, each of the five metrics is an
  integer in \<open>[0, 100]\<close> and each band follows the thresholds on the score before rounding.
  The tokenizer is a parameter: the theorem asks that it finds a word in at least one
  sentence, since without any opener the pattern score is \<open>NaN\<close>
  (\<open>sentencePatternRisk_NaN\<close>). The tokenizer \<open>word_terms\<close> does so on every text with a word
  (\<open>word_terms_openers\<close>).
\<close>

theorem C5_metrics_in_range:
  fixes terms :: tokenizer and input styleSample :: string
  assumes valid: "trim input \<noteq> []" "20 \<le> length (tokenizeWords terms (trim input))"
      "2 \<le> length (splitSentences terms (trim input))"
    and openers: "openersOf (splitSentences terms (trim input)) \<noteq> []"
  defines "scores \<equiv> preRoundingScores terms input styleSample"
    and "result \<equiv> analyzeText terms input styleSample"
  shows "well_scored (perplexity scores) (perplexity (metrics result)) (perplexity (riskBands result)) \<and>
         well_scored (burstiness scores) (burstiness (metrics result)) (burstiness (riskBands result)) \<and>
         well_scored (sentencePatternDiversity scores) (sentencePatternDiversity (metrics result))
           (sentencePatternDiversity (riskBands result)) \<and>
         well_scored (vocabularyPredictability scores) (vocabularyPredictability (metrics result))
           (vocabularyPredictability (riskBands result)) \<and>
         well_scored (overallRisk scores) (overallRisk (metrics result)) (overallRisk (riskBands result))"
proof -
  have m: "metrics result = map_five roundNumber scores"
    and b: "riskBands result = map_five getRiskColor scores"
    using valid by (simp_all add: result_def scores_def preRoundingScores_def analyzeText_def Let_def)
  obtain p where p: "perplexityRisk (tokenizeWords terms (trim input)) = clamp p"
    using perplexityRisk_clamp by blast
  obtain bu where bu: "burstinessRisk (splitSentences terms (trim input))
      (computeStyleProfile terms styleSample) = clamp bu"
    using burstinessRisk_clamp by blast
  obtain s where s: "sentencePatternRisk (splitSentences terms (trim input)) = Num (clamp s)"
    using sentencePatternRisk_clamp [OF openers] by blast
  obtain v where v: "vocabularyPredictabilityRisk (trim input) (splitSentences terms (trim input))
      (tokenizeWords terms (trim input)) = clamp v"
    using vocabularyPredictabilityRisk_clamp by blast
  have sc: "scores = \<lparr> perplexity = Num (clamp p), burstiness = Num (clamp bu),
      sentencePatternDiversity = Num (clamp s), vocabularyPredictability = Num (clamp v),
      overallRisk = Num (clamp (clamp p * 0.28 + clamp bu * 0.24 + clamp s * 0.22 + clamp v * 0.26)) \<rparr>"
    by (simp add: scores_def preRoundingScores_def riskScores_def Let_def p bu s v)
  show ?thesis
    unfolding m b sc map_five_def
    using well_scored_clamp by (simp del: well_scored.simps roundNumber.simps getRiskColor.simps)
qed

theorem C5_metrics_in_range_witness:
  "trim padded_text \<noteq> [] \<and>
   20 \<le> length (tokenizeWords word_terms (trim padded_text)) \<and>
   2 \<le> length (splitSentences word_terms (trim padded_text)) \<and>
   openersOf (splitSentences word_terms (trim padded_text)) \<noteq> [] \<and>
   well_scored (perplexity (preRoundingScores word_terms padded_text []))
     (perplexity (metrics (analyzeText word_terms padded_text [])))
     (perplexity (riskBands (analyzeText word_terms padded_text []))) \<and>
   well_scored (overallRisk (preRoundingScores word_terms padded_text []))
     (overallRisk (metrics (analyzeText word_terms padded_text [])))
     (overallRisk (riskBands (analyzeText word_terms padded_text [])))"
  using padded_valid
    C5_metrics_in_range [OF padded_valid, of "[]"]
  by blast


section \<open>Properties of the hedge detector\<close>

lemma hedge_here_D:
  assumes "hedge_here prev s = Some h"
  shows "h \<noteq> [] \<and> length h \<le> length s \<and> h = take (length h) s"
proof -
  from assms obtain w where f: "find (\<lambda>w. literal_here w prev s) HEDGE_WORDS = Some w"
    and h: "h = take (length w) s"
    by (auto simp: hedge_here_def split: option.splits)
  from f have "literal_here w prev s" by (auto simp: find_Some_iff)
  then have "w \<noteq> []" and "length w \<le> length s"
    by (simp_all add: literal_here_D)
  with h show ?thesis by (cases w) auto
qed

lemma hedge_callback_keeps: "hedge_callback whole hedge (JString p) = hedge"
  by (simp add: hedge_callback_def)

lemma replace_hedges_same: "replace_hedges whole prev off s = s"
proof (induction whole prev off s rule: replace_hedges.induct)
  case (1 whole prev off)
  show ?case by simp
next
  case (2 whole prev off c cs)
  show ?case
  proof (cases "hedge_here prev (c # cs)")
    case None
    with "2.IH"(1) show ?thesis by simp
  next
    case (Some h)
    from hedge_here_D [OF Some] have h: "h = take (length h) (c # cs)" by simp
    have "replace_hedges whole prev off (c # cs) =
        h @ replace_hedges whole (Some (last h)) (off + length h) (drop (length h) (c # cs))"
      using Some by (simp add: hedge_callback_keeps)
    also have "\<dots> = h @ drop (length h) (c # cs)"
      using "2.IH"(2) [OF Some] by simp
    also have "\<dots> = take (length h) (c # cs) @ drop (length h) (c # cs)"
      using h by simp
    finally show ?thesis by simp
  qed
qed

lemma reduce_hedging_below:
  "hedgeDensity < 0.5 \<Longrightarrow> reduce_hedging sentences hedgeDensity acc = acc"
  by (simp add: reduce_hedging_def)

lemma hedge_step_collapse:
  "hedge_step sentence acc = acc \<or>
   (\<exists>sg. hedge_step sentence acc = acc @ [sg] \<and>
      kind sg = reduce_hedging_uniformity \<and>
      hedge_matches None 0 (ntext sentence) \<noteq> [] \<and>
      start sg = start sentence \<and> end' sg = end' sentence \<and> original sg = raw sentence \<and>
      replacement sg = trim (collapse_spaces (ntext sentence)) \<and>
      replacement sg \<noteq> [] \<and> replacement sg \<noteq> ntext sentence)"
  by (auto simp: hedge_step_def pushSuggestion_def Let_def replace_hedges_same)


section \<open>Where the suggestions of the engine come from\<close>

lemma trim_hd: "trim s \<noteq> [] \<Longrightarrow> \<not> is_space (hd (trim s))"
proof -
  assume ne: "trim s \<noteq> []"
  define d where "d = dropWhile is_space s"
  define n where "n = length (takeWhile is_space (rev d))"
  have "trim s = rev (dropWhile is_space (rev d))"
    by (simp add: trim_def d_def)
  also have "\<dots> = rev (drop n (rev d))"
    by (simp only: n_def dropWhile_eq_drop)
  also have "\<dots> = take (length d - n) d"
    by (simp add: rev_drop)
  finally have t: "trim s = take (length d - n) d" .
  with ne have "d \<noteq> []" and "0 < length d - n" by auto
  then have "hd (trim s) = hd d" using t by (cases d) (auto simp: take_Cons')
  moreover have "\<not> is_space (hd d)"
    using \<open>d \<noteq> []\<close> hd_dropWhile [of is_space s] by (simp add: d_def)
  ultimately show ?thesis by simp
qed

lemma join_hd: "w \<noteq> [] \<Longrightarrow> join sep (w # ws) \<noteq> [] \<and> hd (join sep (w # ws)) = hd w"
  by (cases ws) auto

lemma split_spaces_hd:
  assumes "s \<noteq> []" and "\<not> is_space (hd s)"
  shows "\<exists>w ws. split_spaces s = w # ws \<and> w \<noteq> [] \<and> hd w = hd s"
proof -
  from assms obtain c cs where s: "s = c # cs" and c: "\<not> is_space c"
    by (cases s) auto
  then have "takeWhile (\<lambda>c. \<not> is_space c) s = c # takeWhile (\<lambda>c. \<not> is_space c) cs"
    by simp
  then show ?thesis
    using s by (subst split_spaces.simps) (auto simp: Let_def)
qed

lemma pushSuggestion_mem:
  "sg \<in> set (pushSuggestion c acc) \<Longrightarrow>
     sg \<in> set acc \<or>
     (start sg = start c \<and> end' sg = end' c \<and> kind sg = kind c \<and>
      original sg = original c \<and> replacement sg = replacement c \<and> status sg = pending)"
  by (auto simp: pushSuggestion_def split: if_splits)

lemma vary_window_mem:
  assumes "sg \<in> set (vary_window s0 target s2 acc)"
  shows "sg \<in> set acc \<or> covers target sg"
proof (cases "vary_window s0 target s2 acc = acc")
  case True
  with assms show ?thesis by simp
next
  case False
  obtain left right where lr: "split_at_comma (ntext target) = (left, right)"
    by (cases "split_at_comma (ntext target)")
  have left: "left = trim (slice (ntext target) 0 (indexOf (ntext target) '',''))"
    using lr by (simp add: split_at_comma_def Let_def)
  from False lr have ne: "left \<noteq> []"
    and eq: "vary_window s0 target s2 acc = pushSuggestion
                \<lparr> start = start target, end' = end' target, kind = vary_sentence_length,
                  title = ''Vary sentence length in this run'',
                  description = ''These nearby sentences have very similar length. Splitting this one adds natural rhythm.'',
                  original = raw target,
                  replacement = left @ ''. '' @ capitalizeFirst right,
                  riskImpact = 8 \<rparr> acc"
    by (auto simp: vary_window_def Let_def split: if_splits)
  have "\<not> is_space (hd left)" using ne trim_hd unfolding left by blast
  with ne have "hd (left @ ''. '' @ capitalizeFirst right) = hd left \<and> \<not> is_space (hd left)"
    by simp
  with assms ne show ?thesis
    unfolding eq by (auto dest!: pushSuggestion_mem simp: covers_def built_from_def lr)
qed

lemma vary_windows_mem:
  "sg \<in> set (vary_windows ss acc) \<Longrightarrow> sg \<in> set acc \<or> (\<exists>s \<in> set ss. covers s sg)"
proof (induction ss acc rule: vary_windows.induct)
  case (1 s0 s1 s2 rest acc)
  from 1 have "sg \<in> set (vary_window s0 s1 s2 acc) \<or> (\<exists>s \<in> set (s1 # s2 # rest). covers s sg)"
    by simp
  then show ?case using vary_window_mem by fastforce
qed auto



lemma add_texture_mem:
  assumes wf: "\<forall>s \<in> set ss. trimmed_text s"
    and mem: "sg \<in> set (add_texture t ss profile acc)"
  shows "sg \<in> set acc \<or> (\<exists>s \<in> set ss. covers s sg)"
proof (cases "add_texture t ss profile acc = acc")
  case True
  with mem show ?thesis by simp
next
  case False
  then obtain target where f: "find (\<lambda>sentence. wordCount sentence \<ge> 14 \<and>
        \<not> includes_str (ntext sentence) ''('') ss = Some target"
    by (auto simp: add_texture_def Let_def split: if_splits option.splits)
  then have tin: "target \<in> set ss"
    by (auto simp: find_Some_iff)
  define words where "words = split_spaces (ntext target)"
  define k where "k = min 6 (length words - 1)"
  define repl where "repl = join '' '' (take k words @ [''(for context),''] @ drop k words)"
  have eq: "add_texture t ss profile acc = pushSuggestion
                    \<lparr> start = start target, end' = end' target,
                      kind = add_stylistic_texture,
                      title = ''Add a small human-style aside'',
                      description = ''A brief parenthetical can make polished writing feel more naturally human.'',
                      original = raw target,
                      replacement = repl, riskImpact = 5 \<rparr> acc"
    using False f
    by (auto simp: add_texture_def Let_def words_def k_def repl_def split: if_splits)
  from wf tin have "ntext target \<noteq> []" "\<not> is_space (hd (ntext target))"
    by (auto simp: trimmed_text_def)
  from split_spaces_hd [OF this] obtain w ws where
    w: "words = w # ws" "w \<noteq> []" "hd w = hd (ntext target)"
    unfolding words_def by blast
  have "repl \<noteq> [] \<and> \<not> is_space (hd repl)"
  proof (cases k)
    case 0
    then have "repl = join '' '' (''(for context),'' # words)"
      by (simp add: repl_def)
    with join_hd [of "''(for context),''" "'' ''" words] show ?thesis
      by (simp add: is_space_def)
  next
    case (Suc k')
    then have "take k words @ [''(for context),''] @ drop k words =
        w # (take k' ws @ [''(for context),''] @ drop k' ws)"
      using w(1) by simp
    then have "repl = join '' '' (w # (take k' ws @ [''(for context),''] @ drop k' ws))"
      by (simp add: repl_def)
    with join_hd [OF w(2)] w(3) \<open>\<not> is_space (hd (ntext target))\<close> show ?thesis
      by simp
  qed
  with mem tin show ?thesis
    unfolding eq
    by (auto dest!: pushSuggestion_mem
          simp: covers_def built_from_def Let_def repl_def k_def words_def)
qed

lemma opener_rewrite_hd:
  "opener_rewrite t \<noteq> [] \<and> \<not> is_space (hd (opener_rewrite t))"
  by (simp add: opener_rewrite_def is_space_def)

lemma push_opener_mem:
  "sg \<in> set (push_opener w s acc) \<Longrightarrow> sg \<in> set acc \<or> covers s sg"
  using opener_rewrite_hd [of "ntext s"]
  by (auto simp: push_opener_def covers_def built_from_def dest!: pushSuggestion_mem)

lemma foldl_push_opener_mem:
  "sg \<in> set (foldl (\<lambda>acc' sentence. push_opener w sentence acc') acc rs) \<Longrightarrow>
     sg \<in> set acc \<or> (\<exists>s \<in> set rs. covers s sg)"
proof (induction rs arbitrary: acc)
  case Nil
  then show ?case by simp
next
  case (Cons r rs)
  from Cons.prems have "sg \<in> set (push_opener w r acc) \<or> (\<exists>s \<in> set rs. covers s sg)"
    by (auto dest!: Cons.IH)
  then show ?case using push_opener_mem by fastforce
qed

lemma diversify_mem:
  assumes "sg \<in> set (diversify ss acc)"
  shows "sg \<in> set acc \<or> (\<exists>s \<in> set ss. covers s sg)"
proof -
  define F where "F = (\<lambda>acc w. foldl (\<lambda>acc' sentence. push_opener w sentence acc') acc
      (take 2 (drop 1 (filter (\<lambda>sentence. firstWord sentence = w) ss))))"
  have step: "sg \<in> set (F acc w) \<Longrightarrow> sg \<in> set acc \<or> (\<exists>s \<in> set ss. covers s sg)" for acc w
  proof -
    let ?rs = "take 2 (drop 1 (filter (\<lambda>sentence. firstWord sentence = w) ss))"
    have sub: "set ?rs \<subseteq> set ss"
      by (meson filter_is_subset set_drop_subset set_take_subset subset_trans)
    assume "sg \<in> set (F acc w)"
    then have "sg \<in> set (foldl (\<lambda>acc' sentence. push_opener w sentence acc') acc ?rs)"
      by (simp add: F_def)
    from foldl_push_opener_mem [OF this] sub show ?thesis by blast
  qed
  have all: "sg \<in> set (foldl F acc ws) \<Longrightarrow> sg \<in> set acc \<or> (\<exists>s \<in> set ss. covers s sg)"
    for acc ws
  proof (induction ws arbitrary: acc)
    case Nil
    then show ?case by simp
  next
    case (Cons w ws)
    from Cons.prems have "sg \<in> set (foldl F (F acc w) ws)" by simp
    from Cons.IH [OF this] step [of acc w] show ?case by blast
  qed
  have "diversify ss acc = foldl F acc
      (map fst (filter (\<lambda>(w, n). n \<ge> 3)
         (count_all (filter (\<lambda>k. k \<noteq> []) (map firstWord ss)))))"
    by (simp add: diversify_def Let_def F_def)
  with assms all show ?thesis by simp
qed

lemma hedge_step_mem:
  assumes "sg \<in> set (hedge_step s acc)"
  shows "sg \<in> set acc \<or> covers s sg"
proof -
  let ?r = "trim (collapse_spaces (replace_hedges (ntext s) None 0 (ntext s)))"
  show ?thesis
  proof (cases "hedge_step s acc = acc")
    case True
    with assms show ?thesis by simp
  next
    case False
    then have ne: "?r \<noteq> []"
      and eq: "hedge_step s acc = pushSuggestion
                  \<lparr> start = start s, end' = end' s,
                    kind = reduce_hedging_uniformity,
                    title = ''Reduce repetitive hedging'',
                    description = ''Hedging is useful, but too much in every sentence can look algorithmic.'',
                    original = raw s, replacement = ?r, riskImpact = 6 \<rparr> acc"
      by (auto simp: hedge_step_def Let_def split: if_splits)
    from trim_hd [OF ne] ne assms show ?thesis
      unfolding eq by (auto dest!: pushSuggestion_mem simp: covers_def built_from_def)
  qed
qed

lemma reduce_hedging_mem:
  assumes "sg \<in> set (reduce_hedging ss d acc)"
  shows "sg \<in> set acc \<or> (\<exists>s \<in> set ss. covers s sg)"
proof -
  have "\<And>acc. sg \<in> set (foldl (\<lambda>acc sentence. hedge_step sentence acc) acc rs) \<Longrightarrow>
      sg \<in> set acc \<or> (\<exists>s \<in> set rs. covers s sg)" for rs
  proof (induction rs)
    case Nil
    then show ?case by simp
  next
    case (Cons r rs)
    from Cons.prems have "sg \<in> set (hedge_step r acc) \<or> (\<exists>s \<in> set rs. covers s sg)"
      by (auto dest!: Cons.IH)
    then show ?case using hedge_step_mem by fastforce
  qed
  with assms show ?thesis by (auto simp: reduce_hedging_def split: if_splits)
qed

lemma match_rhythm_mem:
  assumes "sg \<in> set (match_rhythm ss m sd profile acc)"
  shows "sg \<in> set acc \<or> (\<exists>s \<in> set ss. covers s sg)"
proof (cases "match_rhythm ss m sd profile acc = acc")
  case True
  with assms show ?thesis by simp
next
  case False
  then obtain long where f: "find (\<lambda>sentence. real (wordCount sentence) > m + 7) ss = Some long"
    by (auto simp: match_rhythm_def split: option.splits if_splits)
  then have lin: "long \<in> set ss" by (auto simp: find_Some_iff)
  obtain left right where lr: "split_at_comma (ntext long) = (left, right)"
    by (cases "split_at_comma (ntext long)")
  have left: "left = trim (slice (ntext long) 0 (indexOf (ntext long) '',''))"
    using lr by (simp add: split_at_comma_def Let_def)
  have eq: "match_rhythm ss m sd profile acc = pushSuggestion
                       \<lparr> start = start long, end' = end' long,
                         kind = vary_sentence_length,
                         title = ''Match your usual rhythm'',
                         description = ''Compared to your style sample, this section is rhythmically uniform. Split one sentence to restore your voice.'',
                         original = raw long,
                         replacement = left @ ''. '' @ capitalizeFirst right,
                         riskImpact = 8 \<rparr> acc"
    using False f lr by (auto simp: match_rhythm_def split: option.splits if_splits)
  have "\<not> is_space (hd (left @ ''. '' @ capitalizeFirst right))"
  proof (cases "left = []")
    case True
    then show ?thesis by (simp add: is_space_def)
  next
    case False
    then have "\<not> is_space (hd left)" using trim_hd unfolding left by blast
    with False show ?thesis by simp
  qed
  with assms lin show ?thesis
    unfolding eq by (auto dest!: pushSuggestion_mem simp: covers_def built_from_def lr)
qed


lemma collect_sentences_text:
  "s \<in> set (collect_sentences terms ms acc) \<Longrightarrow>
     s \<in> set acc \<or> (\<exists>m \<in> set ms. ntext s = trim (snd m) \<and> trim (snd m) \<noteq> [])"
proof (induction ms arbitrary: acc)
  case Nil
  then show ?case by simp
next
  case (Cons m ms)
  show ?case
  proof (cases "trim (snd m) = []")
    case True
    with Cons.prems have "s \<in> set (collect_sentences terms ms acc)" by simp
    from Cons.IH [OF this] show ?thesis by auto
  next
    case False
    with Cons.prems have
      "s \<in> set (collect_sentences terms ms (acc @ [make_sentence terms (length acc) m]))"
      by simp
    from Cons.IH [OF this] False show ?thesis
      by (auto simp: make_sentence_def Let_def)
  qed
qed

lemma splitSentences_trimmed: "\<forall>s \<in> set (splitSentences terms t). trimmed_text s"
proof
  fix s
  assume "s \<in> set (splitSentences terms t)"
  then obtain m where "ntext s = trim (snd m)" "trim (snd m) \<noteq> []"
    using collect_sentences_text [of s terms "sentence_matches 0 t" "[]"]
    by (auto simp: splitSentences_def)
  with trim_hd [of "snd m"] show "trimmed_text s"
    by (simp add: trimmed_text_def)
qed

text \<open>
  The original of a suggestion of the engine is never blank: it is the raw span of a
  sentence, whose trimmed text is not empty, or a match of a phrase of the catalog, which
  begins with a letter.
\<close>

lemma letters_upper:
  "\<forall>p \<in> set lower_letters. toUpperCase_char p \<in> set upper_letters"
  "\<forall>c \<in> set [CHR 0x09, CHR 0x0A, CHR 0x0B, CHR 0x0C, CHR 0x0D, CHR 0x20, CHR 0xA0].
     toUpperCase_char c \<notin> set upper_letters"
  by code_simp+

lemma catalog_first:
  "\<forall>(phrase, repl) \<in> set PREDICTABLE_PHRASES.
     escapePhrase phrase \<noteq> [] \<and> hd (escapePhrase phrase) \<in> set lower_letters"
  by code_simp

lemma literal_matches_first:
  "m \<in> set (literal_matches pat prev off s) \<Longrightarrow>
     snd m \<noteq> [] \<and> toUpperCase_char (hd (snd m)) = toUpperCase_char (hd pat)"
proof (induction pat prev off s rule: literal_matches.induct)
  case (1 pat prev off)
  then show ?case by simp
next
  case (2 pat prev off c cs)
  show ?case
  proof (cases "literal_here pat prev (c # cs)")
    case True
    then have p: "pat \<noteq> []" and ci: "ci_prefix pat (c # cs)" by (simp_all add: literal_here_D)
    from ci_prefix_first [OF ci p] have u: "toUpperCase_char c = toUpperCase_char (hd pat)" by simp
    from p have "take (length pat) (c # cs) \<noteq> [] \<and> hd (take (length pat) (c # cs)) = c"
      by (cases pat) auto
    with 2 True u show ?thesis by auto
  next
    case False
    with 2 show ?thesis by auto
  qed
qed

lemma trim_nonempty: "s \<noteq> [] \<Longrightarrow> \<not> is_space (hd s) \<Longrightarrow> trim s \<noteq> []"
proof -
  assume "s \<noteq> []" and n: "\<not> is_space (hd s)"
  then have "hd s \<in> set s" by simp
  from in_trim [OF this n] show ?thesis by auto
qed

lemma phrase_match_original:
  assumes "(phrase, repl) \<in> set PREDICTABLE_PHRASES"
    and "m \<in> set (literal_matches (escapePhrase phrase) prev off t)"
  shows "trim (snd m) \<noteq> []"
proof -
  from catalog_first assms(1)
  have low: "hd (escapePhrase phrase) \<in> set lower_letters" by blast
  from literal_matches_first [OF assms(2)]
  have ne: "snd m \<noteq> []"
    and u: "toUpperCase_char (hd (snd m)) = toUpperCase_char (hd (escapePhrase phrase))"
    by simp_all
  from low letters_upper(1) u have up: "toUpperCase_char (hd (snd m)) \<in> set upper_letters"
    by simp
  have "\<not> is_space (hd (snd m))"
  proof
    assume "is_space (hd (snd m))"
    then have "hd (snd m) \<in> set [CHR 0x09, CHR 0x0A, CHR 0x0B, CHR 0x0C, CHR 0x0D, CHR 0x20, CHR 0xA0]"
      by (simp only: is_space_def)
    with letters_upper(2) have "toUpperCase_char (hd (snd m)) \<notin> set upper_letters" by blast
    with up show False by simp
  qed
  with ne show ?thesis by (rule trim_nonempty)
qed

lemma push_phrase_matches_original:
  "sg \<in> set (push_phrase_matches r ms acc) \<Longrightarrow>
     sg \<in> set acc \<or> (\<exists>m \<in> set ms. original sg = snd m)"
proof (induction ms arbitrary: acc)
  case Nil
  then show ?case by simp
next
  case (Cons m ms)
  define c :: candidate where "c =
            \<lparr> start = int (fst m), end' = int (fst m) + int (length (snd m)),
              kind = swap_predictable_phrasing,
              title = ''Use less templated phrasing'',
              description = ''This phrase is common in generated text. A small wording swap can feel more personal.'',
              original = snd m,
              replacement = (if snd m \<noteq> [] \<and> hd (snd m) \<in> set upper_letters
                  then capitalizeFirst r else r), riskImpact = 6 \<rparr>"
  have eq: "push_phrase_matches r (m # ms) acc =
      (if 40 \<le> length (pushSuggestion c acc) then pushSuggestion c acc
       else push_phrase_matches r ms (pushSuggestion c acc))"
    by (simp add: Let_def c_def)
  from Cons.prems have "sg \<in> set (pushSuggestion c acc) \<or> (\<exists>m \<in> set ms. original sg = snd m)"
    unfolding eq by (auto split: if_splits dest: Cons.IH)
  moreover have "original c = snd m" by (simp add: c_def)
  ultimately show ?case using pushSuggestion_mem [of sg c acc] by auto
qed

lemma swap_phrases_original:
  assumes "sg \<in> set (swap_phrases t acc)"
  shows "sg \<in> set acc \<or> trim (original sg) \<noteq> []"
proof -
  have "\<And>acc. set ps \<subseteq> set PREDICTABLE_PHRASES \<Longrightarrow>
      sg \<in> set (foldl (\<lambda>acc (phrase, repl).
              push_phrase_matches repl (literal_matches (escapePhrase phrase) None 0 t) acc)
           acc ps) \<Longrightarrow> sg \<in> set acc \<or> trim (original sg) \<noteq> []" for ps
  proof (induction ps)
    case Nil
    then show ?case by simp
  next
    case (Cons p ps)
    obtain phrase repl where p: "p = (phrase, repl)" by (cases p)
    from Cons.prems(1) p have pin: "(phrase, repl) \<in> set PREDICTABLE_PHRASES"
      and sub: "set ps \<subseteq> set PREDICTABLE_PHRASES" by auto
    from Cons.prems(2) have "sg \<in> set (push_phrase_matches repl
        (literal_matches (escapePhrase phrase) None 0 t) acc) \<or> trim (original sg) \<noteq> []"
      unfolding p using Cons.IH [OF sub] by auto
    then show ?case
      using push_phrase_matches_original [of sg repl _ acc] phrase_match_original [OF pin]
      by metis
  qed
  from this [of PREDICTABLE_PHRASES acc] assms show ?thesis
    by (simp add: swap_phrases_def)
qed

lemma candidates_split:
  assumes wf: "\<forall>s \<in> set ss. trimmed_text s"
    and mem: "sg \<in> set (candidates t ss m sd d profile)"
  shows "sg \<in> set (swap_phrases t (vary_windows ss [])) \<or> (\<exists>s \<in> set ss. covers s sg)"
proof -
  from mem have "sg \<in> set (reduce_hedging ss d (diversify ss (add_texture t ss profile
      (swap_phrases t (vary_windows ss []))))) \<or> (\<exists>s \<in> set ss. covers s sg)"
    unfolding candidates_def using match_rhythm_mem by blast
  then have "sg \<in> set (diversify ss (add_texture t ss profile
      (swap_phrases t (vary_windows ss [])))) \<or> (\<exists>s \<in> set ss. covers s sg)"
    using reduce_hedging_mem by blast
  then have "sg \<in> set (add_texture t ss profile (swap_phrases t (vary_windows ss [])))
      \<or> (\<exists>s \<in> set ss. covers s sg)"
    using diversify_mem by blast
  then show ?thesis
    using add_texture_mem [OF wf] by blast
qed

lemma collect_sentences_raw:
  "s \<in> set (collect_sentences terms ms acc) \<Longrightarrow>
     s \<in> set acc \<or> (ntext s = trim (raw s) \<and> ntext s \<noteq> [])"
proof (induction ms arbitrary: acc)
  case Nil
  then show ?case by simp
next
  case (Cons m ms)
  show ?case
  proof (cases "trim (snd m) = []")
    case True
    with Cons.prems have "s \<in> set (collect_sentences terms ms acc)" by simp
    from Cons.IH [OF this] show ?thesis .
  next
    case False
    with Cons.prems have
      "s \<in> set (collect_sentences terms ms (acc @ [make_sentence terms (length acc) m]))"
      by simp
    from Cons.IH [OF this] False show ?thesis
      by (auto simp: make_sentence_def Let_def)
  qed
qed

lemma splitSentences_ntext:
  "s \<in> set (splitSentences terms t) \<Longrightarrow> ntext s = trim (raw s) \<and> ntext s \<noteq> []"
  using collect_sentences_raw [of s terms "sentence_matches 0 t" "[]"]
  by (auto simp: splitSentences_def)

lemma buildSuggestions_original:
  assumes "sg \<in> set (buildSuggestions t (splitSentences terms t) m sd d profile)"
  shows "trim (original sg) \<noteq> []"
proof -
  let ?ss = "splitSentences terms t"
  from assms have "sg \<in> set (candidates t ?ss m sd d profile)"
    by (auto simp: buildSuggestions_def dest: in_set_takeD)
  from candidates_split [OF splitSentences_trimmed this]
  have "sg \<in> set (swap_phrases t (vary_windows ?ss [])) \<or> (\<exists>s \<in> set ?ss. covers s sg)" .
  then have "trim (original sg) \<noteq> [] \<or> (\<exists>s \<in> set ?ss. covers s sg)"
    using swap_phrases_original [of sg t] vary_windows_mem [of sg ?ss "[]"] by auto
  then show ?thesis
  proof
    assume "trim (original sg) \<noteq> []"
    then show ?thesis .
  next
    assume "\<exists>s \<in> set ?ss. covers s sg"
    then obtain s where s: "s \<in> set ?ss" "original sg = raw s"
      by (auto simp: covers_def)
    from splitSentences_ntext [OF s(1)] s(2) show ?thesis by auto
  qed
qed





section \<open>The two example drafts\<close>

lemma analyzeText_suggestions:
  assumes "trim input \<noteq> []" "20 \<le> length (tokenizeWords terms (trim input))"
      "2 \<le> length (splitSentences terms (trim input))"
  shows "suggestions (analyzeText terms input styleSample) =
           buildSuggestions (trim input) (splitSentences terms (trim input))
             (average (sentenceLengthsOf (splitSentences terms (trim input))))
             (stdDev (sentenceLengthsOf (splitSentences terms (trim input))))
             (hedgeDensityOf (trim input) (splitSentences terms (trim input)))
             (computeStyleProfile terms styleSample)"
  using assms by (simp add: analyzeText_def Let_def)

lemma vary_windows_two: "length ss = 2 \<Longrightarrow> vary_windows ss acc = acc"
proof -
  assume "length ss = 2"
  then obtain a b where "ss = [a, b]"
    by (auto simp: length_Suc_conv numeral_2_eq_2)
  then show ?thesis by simp
qed

lemma padded_list_fields:
  "map (\<lambda>sg. (start sg, end' sg, original sg, kind sg, ident sg, replacement sg)) padded_list =
     [(0, 13, ''In conclusion'', swap_predictable_phrasing, ''s-1'', ''To wrap up''),
      (24, 74, '' We do it as is, so go on if he is in or up to it.'', add_stylistic_texture,
       ''s-2'', ''We do it as is, so (for context), go on if he is in or up to it.'')]"
  by code_simp





lemma hedged_valid:
  "trim hedged_text \<noteq> []"
  "20 \<le> length (tokenizeWords word_terms (trim hedged_text))"
  "2 \<le> length (splitSentences word_terms (trim hedged_text))"
  "length (splitSentences word_terms (trim hedged_text)) = 2"
  "length (hedge_matches None 0 (trim hedged_text)) = 2"
  by code_simp+

lemma hedged_sentences:
  "map (\<lambda>s. (ntext s, hedge_matches None 0 (ntext s)))
       (splitSentences word_terms (trim hedged_text)) =
     [(''It may  go on.'', [(3, ''may'')]),
      (''We may do it as is, so go on if he is in or up to it.'', [(3, ''may'')])]"
  by code_simp

lemma hedged_list_fields:
  "map (\<lambda>sg. (kind sg, start sg, end' sg, original sg, replacement sg)) hedged_list =
     [(add_stylistic_texture, 14, 68,
       '' We may do it as is, so go on if he is in or up to it.'',
       ''We may do it as is, (for context), so go on if he is in or up to it.''),
      (reduce_hedging_uniformity, 0, 14, ''It may  go on.'', ''It may go on.'')]"
  by code_simp

lemma padded_sentences:
  "length (splitSentences word_terms (trim padded_text)) = 2"
  "hedge_matches None 0 (trim padded_text) = []"
  "slice padded_text 0 13 = ''  In conclusi''"
  "slice (trim padded_text) 24 74 = '' We do it as is, so go on if he is in or up to it.''"
  by code_simp+

lemma buildSuggestions_plain:
  assumes "length ss = 2" and "d < 0.5"
  shows "buildSuggestions t ss m sd d None =
           take 20 (diversify ss (add_texture t ss None (swap_phrases t [])))"
  using assms
  by (simp add: buildSuggestions_def candidates_def match_rhythm_def reduce_hedging_def
        vary_windows_two)

lemma buildSuggestions_hedged:
  assumes "length ss = 2" and "0.5 \<le> d"
  shows "buildSuggestions t ss m sd d None =
           take 20 (foldl (\<lambda>acc sentence. hedge_step sentence acc)
                      (diversify ss (add_texture t ss None (swap_phrases t []))) ss)"
  using assms
  by (simp add: buildSuggestions_def candidates_def match_rhythm_def reduce_hedging_def
        vary_windows_two)

lemma padded_build:
  "d < 0.5 \<Longrightarrow>
     buildSuggestions (trim padded_text) (splitSentences word_terms (trim padded_text)) m sd d None
       = padded_list"
proof -
  assume d: "d < 0.5"
  have "length padded_list = 2"
    using arg_cong [OF padded_list_fields, of length] by simp
  then have "take 20 padded_list = padded_list" by simp
  with buildSuggestions_plain [OF padded_sentences(1) d] show ?thesis
    by (simp add: padded_list_def)
qed

lemma padded_list_second:
  "start (padded_list ! 1) = 24" "end' (padded_list ! 1) = 74"
  "original (padded_list ! 1) = '' We do it as is, so go on if he is in or up to it.''"
  "kind (padded_list ! 1) = add_stylistic_texture" "ident (padded_list ! 1) = ''s-2''"
  "replacement (padded_list ! 1) =
     ''We do it as is, so (for context), go on if he is in or up to it.''"
  "ident (padded_list ! 0) = ''s-1''" "start (padded_list ! 0) = 0" "end' (padded_list ! 0) = 13"
  "original (padded_list ! 0) = ''In conclusion''"
  "length padded_list = 2"
  using arg_cong [OF padded_list_fields, of "\<lambda>xs. xs ! 1"]
    arg_cong [OF padded_list_fields, of "\<lambda>xs. xs ! 0"]
    arg_cong [OF padded_list_fields, of length]
  by (simp_all del: map_eq_Cons_conv)

section \<open>The hedge detector on a draft\<close>

text \<open>
  C7. The claim is that, when the detector fires, it removes the first hedge word of
  every sentence that has one. The callback never drops a match (\<open>replace_hedges_same\<close>),
  so the replacement of a sentence is its text with the runs of white space collapsed
  (\<open>hedge_step_collapse\<close>). On \<open>hedged_text\<close> the hedge density is 1 and each of the two
  sentences has the match \<open>may\<close>: the first sentence gets a suggestion whose replacement
  still has the hedge word, and the second sentence gets none.
\<close>

theorem C7_hedge_word_is_kept:
  "hedgeDensityOf (trim hedged_text) (splitSentences word_terms (trim hedged_text)) = 1 \<and>
   map (\<lambda>s. (ntext s, hedge_matches None 0 (ntext s)))
       (splitSentences word_terms (trim hedged_text)) =
     [(''It may  go on.'', [(3, ''may'')]),
      (''We may do it as is, so go on if he is in or up to it.'', [(3, ''may'')])] \<and>
   map (\<lambda>sg. (start sg, end' sg, original sg, replacement sg))
       (filter (\<lambda>sg. kind sg = reduce_hedging_uniformity)
          (suggestions (analyzeText word_terms hedged_text []))) =
     [(0, 14, ''It may  go on.'', ''It may go on.'')]"
proof -
  let ?t = "trim hedged_text"
  let ?ss = "splitSentences word_terms ?t"
  have profile: "computeStyleProfile word_terms [] = None"
    by (simp add: computeStyleProfile_def)
  have density: "hedgeDensityOf ?t ?ss = 1"
    by (simp add: hedgeDensityOf_def hedged_valid(4,5))
  obtain a b where l: "hedged_list = [a, b]"
    and a: "kind a = add_stylistic_texture"
    and b: "kind b = reduce_hedging_uniformity" "start b = 0" "end' b = 14"
      "original b = ''It may  go on.''" "replacement b = ''It may go on.''"
    using hedged_list_fields by (auto simp: map_eq_Cons_conv)
  have "suggestions (analyzeText word_terms hedged_text []) =
          buildSuggestions ?t ?ss (average (sentenceLengthsOf ?ss)) (stdDev (sentenceLengthsOf ?ss))
            (hedgeDensityOf ?t ?ss) (computeStyleProfile word_terms [])"
    using hedged_valid(1-3) by (rule analyzeText_suggestions)
  also have "\<dots> = take 20 hedged_list"
    unfolding profile density hedged_list_def
    by (rule buildSuggestions_hedged [OF hedged_valid(4)]) simp
  also have "\<dots> = hedged_list" by (simp add: l)
  finally have sugg: "suggestions (analyzeText word_terms hedged_text []) = hedged_list" .
  have "map (\<lambda>sg. (start sg, end' sg, original sg, replacement sg))
       (filter (\<lambda>sg. kind sg = reduce_hedging_uniformity)
          (suggestions (analyzeText word_terms hedged_text []))) =
     [(0, 14, ''It may  go on.'', ''It may go on.'')]"
    unfolding sugg l using a b by simp
  with density hedged_sentences show ?thesis by blast
qed


section \<open>Sentence-level suggestions and their spans\<close>






section \<open>Offsets of the suggestions of an analysis call\<close>

text \<open>
  C1. The claim is that the offsets of every suggestion index the text passed to the
  call. \<open>analyzeText\<close> trims that text first and all offsets index the trimmed text: for
  \<open>padded_text\<close> the first suggestion has the original \<open>In conclusion\<close> at the span
  \<open>(0, 13)\<close>, where the text passed to the call has two blanks and \<open>In conclusi\<close>.
\<close>

theorem C1_offsets_into_trimmed_text:
  "\<exists>sg \<in> set (suggestions (analyzeText word_terms padded_text [])).
     start sg = 0 \<and> end' sg = 13 \<and> original sg = ''In conclusion'' \<and>
     slice padded_text (start sg) (end' sg) = ''  In conclusi''"
proof -
  let ?t = "trim padded_text"
  let ?ss = "splitSentences word_terms ?t"
  have profile: "computeStyleProfile word_terms [] = None"
    by (simp add: computeStyleProfile_def)
  have density: "hedgeDensityOf ?t ?ss = 0"
    by (simp add: hedgeDensityOf_def padded_sentences(2))
  have "suggestions (analyzeText word_terms padded_text []) =
          buildSuggestions ?t ?ss (average (sentenceLengthsOf ?ss)) (stdDev (sentenceLengthsOf ?ss))
            (hedgeDensityOf ?t ?ss) (computeStyleProfile word_terms [])"
    using padded_valid(1-3) by (rule analyzeText_suggestions)
  also have "\<dots> = padded_list"
    unfolding profile density by (rule padded_build) simp
  finally have sugg: "suggestions (analyzeText word_terms padded_text []) = padded_list" .
  have mem: "padded_list ! 0 \<in> set padded_list"
    by (rule nth_mem) (simp add: padded_list_second)
  show ?thesis
    unfolding sugg using mem padded_list_second padded_sentences(3)
    by (intro bexI [of _ "padded_list ! 0"]) simp_all
qed

end
